theory Spec2Isabelle
  imports Complex_Main "HOL-Library.Multiset"
begin

section \<open>The mass-sending bot of \<^verbatim>\<open>src/index.js\<close> (first variant, lines 1 to 572)\<close>

text \<open>
  The development embeds the list storage, the recipient filter, the member enumerator,
  the broadcast runner and the \<^verbatim>\<open>/broadcast\<close> command handler. JavaScript strings are
  Isabelle strings; the code only compares them for equality and trims them. Numbers
  that the code treats as integers (member ids, counts, offsets) are \<^typ>\<open>int\<close>.
\<close>

subsection \<open>Data model\<close>

text \<open>
  A member as \<^verbatim>\<open>groups.getMembers\<close> returns it with \<^verbatim>\<open>fields: 'first_name,last_name'\<close>.
  A missing name is the empty string, which is what \<^verbatim>\<open>user.first_name || ''\<close> makes
  of it.
\<close>

record member =
  user_id :: int
  first_name :: string
  last_name :: string

text \<open>
  A list file (\<^verbatim>\<open>blocklist.json\<close>, \<^verbatim>\<open>allowlist.json\<close>) as the loaders see it:
  \<^verbatim>\<open>statSync\<close> throws (\<open>Absent\<close>), or it gives the modification time and then
  \<^verbatim>\<open>readFileSync\<close> with \<^verbatim>\<open>JSON.parse\<close> throws (\<open>Invalid\<close>), gives a value that is
  not an array (\<open>NonArray\<close>), or gives an array of strings.
\<close>

datatype json_body = Invalid | NonArray | StrArray "string list"

datatype list_file = Absent | Present nat json_body

text \<open>The two files and the module-level cache variables of lines 37 to 40.\<close>

record lists =
  blocklist_file :: list_file
  allowlist_file :: list_file
  blocklistCache :: "string list option"
  allowlistCache :: "string list option"
  blocklistLastModified :: nat
  allowlistLastModified :: nat

text \<open>
  What the environment decides when a list is saved: whether \<^verbatim>\<open>writeFileSync\<close>
  succeeds, the modification time the file gets, and the value of \<^verbatim>\<open>Date.now()\<close>.
\<close>

record io =
  write_ok :: bool
  write_mtime :: nat
  now :: nat

text \<open>
  An error thrown by \<^verbatim>\<open>bot.api\<close>: \<^verbatim>\<open>err.code\<close>, \<^verbatim>\<open>err.message\<close> and
  \<^verbatim>\<open>err.data?.parameters?.retry_after\<close> (seconds), each possibly missing.
\<close>

record api_error =
  code :: "int option"
  retry_after :: "rat option"
  message :: string

datatype cause = ApiFailure api_error | WriteFileFailure

datatype error =
    InvalidUserIdFormat
  | FailedToSaveBlocklist
  | FailedToSaveAllowlist
  | FailedToGatherUserIds cause
  | TemplateFailure string

text \<open>A JavaScript number: the result of \<^verbatim>\<open>Number(userId)\<close>.\<close>

datatype jsnum = NaN | PosInfinity | NegInfinity | Finite rat

subsection \<open>User id validation (lines 46 to 49)\<close>

fun isNaN :: "jsnum \<Rightarrow> bool" where
  "isNaN NaN = True"
| "isNaN _ = False"

fun gt_zero :: "jsnum \<Rightarrow> bool" where
  "gt_zero NaN = False"
| "gt_zero PosInfinity = True"
| "gt_zero NegInfinity = False"
| "gt_zero (Finite q) = (0 < q)"

fun isInteger :: "jsnum \<Rightarrow> bool" where
  "isInteger (Finite q) = (of_int \<lfloor>q\<rfloor> = q)"
| "isInteger _ = False"

text \<open>
  \<^verbatim>\<open>Number\<close> is the built-in conversion of the language; the model takes it as a
  parameter. The handlers pass \<^verbatim>\<open>args[0]\<close>, a string, as \<^verbatim>\<open>userId\<close>.
\<close>

definition isValidUserId :: "(string \<Rightarrow> jsnum) \<Rightarrow> string \<Rightarrow> bool" where
  "isValidUserId Number userId =
     (let numericId = Number userId
      in \<not> isNaN numericId \<and> gt_zero numericId \<and> isInteger numericId)"

subsection \<open>List storage (lines 51 to 179)\<close>

text \<open>
  \<^verbatim>\<open>loadBlocklist\<close>: every path returns the object held in \<^verbatim>\<open>blocklistCache\<close>, so the
  returned list and the cache are one array.
\<close>

definition loadBlocklist :: "lists \<Rightarrow> string list \<times> lists" where
  "loadBlocklist st =
     (case blocklist_file st of
        Absent \<Rightarrow> ([], st\<lparr>blocklistCache := Some [], blocklistLastModified := 0\<rparr>)
      | Present lastModified body \<Rightarrow>
          (case blocklistCache st of
             Some cached \<Rightarrow>
               if blocklistLastModified st \<ge> lastModified then (cached, st)
               else (case body of
                  Invalid \<Rightarrow> ([], st\<lparr>blocklistCache := Some [], blocklistLastModified := 0\<rparr>)
                | NonArray \<Rightarrow>
                    ([], st\<lparr>blocklistCache := Some [], blocklistLastModified := lastModified\<rparr>)
                | StrArray parsed \<Rightarrow>
                    (parsed, st\<lparr>blocklistCache := Some parsed,
                                 blocklistLastModified := lastModified\<rparr>))
           | None \<Rightarrow>
               (case body of
                  Invalid \<Rightarrow> ([], st\<lparr>blocklistCache := Some [], blocklistLastModified := 0\<rparr>)
                | NonArray \<Rightarrow>
                    ([], st\<lparr>blocklistCache := Some [], blocklistLastModified := lastModified\<rparr>)
                | StrArray parsed \<Rightarrow>
                    (parsed, st\<lparr>blocklistCache := Some parsed,
                                 blocklistLastModified := lastModified\<rparr>))))"

definition saveBlocklist :: "io \<Rightarrow> string list \<Rightarrow> lists \<Rightarrow> error + lists" where
  "saveBlocklist env blocklist st =
     (if write_ok env
      then Inr (st\<lparr>blocklist_file := Present (write_mtime env) (StrArray blocklist),
                  blocklistCache := Some blocklist,
                  blocklistLastModified := now env\<rparr>)
      else Inl FailedToSaveBlocklist)"

text \<open>
  \<^verbatim>\<open>addToBlocklist\<close> returns a boolean or throws; the state comes back in both cases.
  \<^verbatim>\<open>blocklist.push\<close> changes the loaded array, which is the cached one, before the
  save is tried.
\<close>

definition addToBlocklist ::
  "(string \<Rightarrow> jsnum) \<Rightarrow> io \<Rightarrow> string \<Rightarrow> lists \<Rightarrow> (error + bool) \<times> lists" where
  "addToBlocklist Number env userId st =
     (if \<not> isValidUserId Number userId then (Inl InvalidUserIdFormat, st)
      else
        let (blocklist, st1) = loadBlocklist st;
            userIdStr = userId
        in if userIdStr \<notin> set blocklist
           then
             let pushed = blocklist @ [userIdStr];
                 st2 = st1\<lparr>blocklistCache := Some pushed\<rparr>
             in (case saveBlocklist env pushed st2 of
                   Inl e \<Rightarrow> (Inl e, st2)
                 | Inr st3 \<Rightarrow> (Inr True, st3))
           else (Inr False, st1))"

definition loadAllowlist :: "lists \<Rightarrow> string list \<times> lists" where
  "loadAllowlist st =
     (case allowlist_file st of
        Absent \<Rightarrow> ([], st\<lparr>allowlistCache := Some [], allowlistLastModified := 0\<rparr>)
      | Present lastModified body \<Rightarrow>
          (case allowlistCache st of
             Some cached \<Rightarrow>
               if allowlistLastModified st \<ge> lastModified then (cached, st)
               else (case body of
                  Invalid \<Rightarrow> ([], st\<lparr>allowlistCache := Some [], allowlistLastModified := 0\<rparr>)
                | NonArray \<Rightarrow>
                    ([], st\<lparr>allowlistCache := Some [], allowlistLastModified := lastModified\<rparr>)
                | StrArray parsed \<Rightarrow>
                    (parsed, st\<lparr>allowlistCache := Some parsed,
                                 allowlistLastModified := lastModified\<rparr>))
           | None \<Rightarrow>
               (case body of
                  Invalid \<Rightarrow> ([], st\<lparr>allowlistCache := Some [], allowlistLastModified := 0\<rparr>)
                | NonArray \<Rightarrow>
                    ([], st\<lparr>allowlistCache := Some [], allowlistLastModified := lastModified\<rparr>)
                | StrArray parsed \<Rightarrow>
                    (parsed, st\<lparr>allowlistCache := Some parsed,
                                 allowlistLastModified := lastModified\<rparr>))))"

definition saveAllowlist :: "io \<Rightarrow> string list \<Rightarrow> lists \<Rightarrow> error + lists" where
  "saveAllowlist env allowlist st =
     (if write_ok env
      then Inr (st\<lparr>allowlist_file := Present (write_mtime env) (StrArray allowlist),
                  allowlistCache := Some allowlist,
                  allowlistLastModified := now env\<rparr>)
      else Inl FailedToSaveAllowlist)"

definition addToAllowlist ::
  "(string \<Rightarrow> jsnum) \<Rightarrow> io \<Rightarrow> string \<Rightarrow> lists \<Rightarrow> (error + bool) \<times> lists" where
  "addToAllowlist Number env userId st =
     (if \<not> isValidUserId Number userId then (Inl InvalidUserIdFormat, st)
      else
        let (allowlist, st1) = loadAllowlist st;
            userIdStr = userId
        in if userIdStr \<notin> set allowlist
           then
             let pushed = allowlist @ [userIdStr];
                 st2 = st1\<lparr>allowlistCache := Some pushed\<rparr>
             in (case saveAllowlist env pushed st2 of
                   Inl e \<Rightarrow> (Inl e, st2)
                 | Inr st3 \<Rightarrow> (Inr True, st3))
           else (Inr False, st1))"

subsection \<open>Recipient filter (lines 181 to 198)\<close>

text \<open>
  \<^verbatim>\<open>String(user.id)\<close> for an integer id: its decimal numeral (ids are far below the
  range where the language switches to exponent notation).
\<close>

fun digits :: "nat \<Rightarrow> string" where
  "digits n =
     (if n < 10 then [''0123456789'' ! n]
      else digits (n div 10) @ [''0123456789'' ! (n mod 10)])"

declare digits.simps [simp del]

definition String_of :: "int \<Rightarrow> string" where
  "String_of i = (if i < 0 then CHR ''-'' # digits (nat (- i)) else digits (nat i))"

definition filterUsers :: "member list \<Rightarrow> lists \<Rightarrow> member list \<times> lists" where
  "filterUsers users st =
     (let (allowlist, st1) = loadAllowlist st;
          (blocklist, st2) = loadBlocklist st1;
          allowlistSet = set allowlist;
          blocklistSet = set blocklist
      in (filter (\<lambda>user.
            let userIdStr = String_of (user_id user)
            in if length allowlist > 0 \<and> userIdStr \<notin> allowlistSet then False
               else userIdStr \<notin> blocklistSet) users,
          st2))"

subsection \<open>The remote service, the files and the observable effects\<close>

text \<open>The parameters of a \<^verbatim>\<open>groups.getMembers\<close> call and its response \<^verbatim>\<open>data\<close>.\<close>

record request =
  group_id :: string
  offset :: int
  count_param :: int

record getMembers_response =
  count :: int
  items :: "member list"

datatype reply =
    AccessDenied
  | UpdatingRecipientList
  | CouldNotReadTemplate
  | TemplateFileEmpty
  | SendingToAllowlisted int int int
  | SendingToUnblocked int int
  | SendingTo int
  | BroadcastComplete
  | BroadcastFailed error

datatype log_line =
    Gathered nat int
  | AllowlistActive int int
  | FilteredOutFromAllowed int
  | FilteredOutBlocked int
  | DryRunWouldSend int string
  | Progress nat nat bool
  | ErrorSending int api_error

text \<open>
  Everything the program does to the outside is recorded in order: the two API methods
  it calls, the wait before a retry (in milliseconds), console lines and chat replies.
\<close>

datatype event =
    ApiGetMembers request
  | ApiSend int string
  | Sleep rat
  | Console log_line
  | Reply reply

text \<open>
  The world: the state of the remote service (of any type \<open>'s\<close>), the list storage,
  the member snapshot \<^verbatim>\<open>peer_list.json\<close> and the record of effects.
\<close>

record 's world =
  net :: 's
  store :: lists
  peer_list :: "member list option"
  trace :: "event list"

text \<open>
  The surroundings of a run: how the remote service answers \<^verbatim>\<open>groups.getMembers\<close> (it
  may answer differently each time, so it maps its state to an answer and a new state),
  whether the snapshot can be written, what reading \<^verbatim>\<open>broadcast_template.txt\<close>
  gives (\<open>None\<close> when \<^verbatim>\<open>readFileSync\<close> throws), the template engine applied to a
  template and the fields \<^verbatim>\<open>first_name\<close>, \<^verbatim>\<open>last_name\<close>, \<^verbatim>\<open>id\<close> (\<open>Inl\<close> is the
  message of the error it throws, \<open>Inr\<close> the text it returns), and the configuration
  constants \<^verbatim>\<open>GROUP_ID\<close> and \<^verbatim>\<open>ADMIN_IDS\<close>.
\<close>

record 's env =
  groups_getMembers :: "'s \<Rightarrow> request \<Rightarrow> (api_error + getMembers_response) \<times> 's"
  write_peer_list_ok :: bool
  read_template :: "string option"
  render :: "string \<Rightarrow> string \<Rightarrow> string \<Rightarrow> int \<Rightarrow> string + string"
  GROUP_ID :: string
  ADMIN_IDS :: "int list"

definition emit :: "event \<Rightarrow> 's world \<Rightarrow> 's world" where
  "emit e w = w\<lparr>trace := trace w @ [e]\<rparr>"

definition isAdmin :: "'s env \<Rightarrow> int \<Rightarrow> bool" where
  "isAdmin env userId = (userId \<in> set (ADMIN_IDS env))"

subsection \<open>Sending one message (lines 204 to 212)\<close>

text \<open>
  \<^verbatim>\<open>sendMessage\<close> issues the call \<^verbatim>\<open>messages.send\<close> at once and returns its promise,
  which settles when the service answers. The attachment list and the random id of the
  call are not part of the model.
\<close>

definition sendMessage :: "int \<Rightarrow> string \<Rightarrow> event list" where
  "sendMessage peer_id text = [ApiSend peer_id text]"

subsection \<open>Member enumeration (lines 214 to 245)\<close>

text \<open>
  The \<^verbatim>\<open>while (true)\<close> loop with its variables \<^verbatim>\<open>members\<close>, \<^verbatim>\<open>offset\<close> and
  \<^verbatim>\<open>total\<close> (\<open>None\<close> is \<^verbatim>\<open>null\<close>). A loop that never ends has the value \<open>None\<close>.
  A failed call leaves the loop with the error. The total that a page reports is an
  integer; a response whose \<^verbatim>\<open>count\<close> is not a number is outside the model.
\<close>

partial_function (option) gather_loop ::
  "'s env \<Rightarrow> string \<Rightarrow> member list \<Rightarrow> int \<Rightarrow> int option \<Rightarrow> 's world
     \<Rightarrow> ((api_error + member list) \<times> 's world) option" where
  "gather_loop env gid members offs tot w =
     (let req = \<lparr>group_id = gid, offset = offs, count_param = 1000\<rparr>;
          w1 = emit (ApiGetMembers req) w
      in case groups_getMembers env (net w1) req of
           (Inl err, n) \<Rightarrow> Some (Inl err, w1\<lparr>net := n\<rparr>)
         | (Inr data, n) \<Rightarrow>
             let tot1 = (case tot of None \<Rightarrow> count data | Some t \<Rightarrow> t);
                 members1 = members @ items data;
                 offs1 = offs + 1000;
                 w2 = emit (Console (Gathered (length members1) tot1)) (w1\<lparr>net := n\<rparr>)
             in if offs1 \<ge> tot1 then Some (Inr members1, w2)
                else gather_loop env gid members1 offs1 (Some tot1) w2)"

definition gatherUserIds ::
  "'s env \<Rightarrow> string \<Rightarrow> 's world \<Rightarrow> ((error + member list) \<times> 's world) option" where
  "gatherUserIds env gid w =
     (case gather_loop env gid [] 0 None w of
        None \<Rightarrow> None
      | Some (Inl err, w1) \<Rightarrow> Some (Inl (FailedToGatherUserIds (ApiFailure err)), w1)
      | Some (Inr members, w1) \<Rightarrow>
          if write_peer_list_ok env
          then Some (Inr members, w1\<lparr>peer_list := Some members\<rparr>)
          else Some (Inl (FailedToGatherUserIds WriteFileFailure), w1))"

text \<open>
  The enumeration as the specification words it: a fixed number of pages, requested at
  offsets that grow by the page size, each page appended whatever total it reports.
\<close>

definition pages_needed :: "int \<Rightarrow> nat" where
  "pages_needed total_count = (if total_count \<le> 1000 then 1 else nat ((total_count + 999) div 1000))"

primrec fetch_pages ::
  "'s env \<Rightarrow> string \<Rightarrow> int \<Rightarrow> nat \<Rightarrow> member list \<Rightarrow> int \<Rightarrow> 's world
     \<Rightarrow> (api_error + member list) \<times> 's world" where
  "fetch_pages env gid tot 0 members offs w = (Inr members, w)"
| "fetch_pages env gid tot (Suc k) members offs w =
     (let req = \<lparr>group_id = gid, offset = offs, count_param = 1000\<rparr>;
          w1 = emit (ApiGetMembers req) w
      in case groups_getMembers env (net w1) req of
           (Inl err, n) \<Rightarrow> (Inl err, w1\<lparr>net := n\<rparr>)
         | (Inr data, n) \<Rightarrow>
             fetch_pages env gid tot k (members @ items data) (offs + 1000)
               (emit (Console (Gathered (length (members @ items data)) tot))
                  (w1\<lparr>net := n\<rparr>)))"

text \<open>
  The requests of \<open>k\<close> consecutive pages from an offset on, the answers the service
  gives to a list of requests made one after the other, and the page requests found in
  a record of effects.
\<close>

primrec page_requests :: "string \<Rightarrow> int \<Rightarrow> nat \<Rightarrow> request list" where
  "page_requests gid offs 0 = []"
| "page_requests gid offs (Suc k) =
     \<lparr>group_id = gid, offset = offs, count_param = 1000\<rparr> # page_requests gid (offs + 1000) k"

fun answers :: "'s env \<Rightarrow> 's \<Rightarrow> request list \<Rightarrow> (api_error + getMembers_response) list" where
  "answers env n [] = []"
| "answers env n (r # rs) =
     (let (a, n1) = groups_getMembers env n r in a # answers env n1 rs)"

fun page_items :: "api_error + getMembers_response \<Rightarrow> member list" where
  "page_items (Inl err) = []"
| "page_items (Inr data) = items data"

fun succeeded :: "api_error + getMembers_response \<Rightarrow> bool" where
  "succeeded (Inl err) = False"
| "succeeded (Inr data) = True"

fun requests_of :: "event list \<Rightarrow> request list" where
  "requests_of [] = []"
| "requests_of (ApiGetMembers r # es) = r # requests_of es"
| "requests_of (_ # es) = requests_of es"

subsection \<open>The broadcast runner (lines 247 to 314)\<close>

text \<open>What a task's promise settles to.\<close>

datatype outcome = Fulfilled | Rejected api_error

text \<open>
  The task that \<^verbatim>\<open>broadcast\<close> hands to the queue for one recipient is the
  \<^verbatim>\<open>async\<close> function of lines 287 to 307. Its code runs in pieces: from its start or
  from one \<^verbatim>\<open>await\<close> up to the next \<^verbatim>\<open>await\<close> or its end, and other tasks run
  in between. A task is at one of these points:
  \<^item> \<open>Admitted\<close>: handed to the queue (line 287), not started;
  \<^item> \<open>AwaitingSend\<close>: at \<^verbatim>\<open>await sendMessage(...)\<close> (line 292), the call issued;
  \<^item> \<open>AwaitingTimer\<close>: in the \<^verbatim>\<open>catch\<close> block at the \<^verbatim>\<open>await\<close> of the timer
    (line 301);
  \<^item> \<open>AwaitingRetry\<close>: it has returned the promise of the second \<^verbatim>\<open>sendMessage\<close>
    (line 303), the call issued;
  \<^item> \<open>Completed\<close>: it left the \<^verbatim>\<open>try\<close> block at its end, after \<^verbatim>\<open>processed++\<close>;
  \<^item> \<open>Abandoned\<close>: it left the \<^verbatim>\<open>catch\<close> block without a second call;
  \<^item> \<open>Retried\<close>: it settled as the second call did.
  The promise of a \<open>Completed\<close> or \<open>Abandoned\<close> task is fulfilled. That of a task at
  \<open>Retried (Rejected err)\<close> is rejected, and nothing in the program handles the
  rejection.
\<close>

datatype stage =
    Admitted
  | AwaitingSend
  | AwaitingTimer
  | AwaitingRetry
  | Completed
  | Abandoned
  | Retried outcome

record task =
  recipient :: member
  personalizedMessage :: string
  stage :: stage

text \<open>Whether the promise of a task has settled, and whether it was rejected.\<close>

fun settled :: "stage \<Rightarrow> bool" where
  "settled Completed = True"
| "settled Abandoned = True"
| "settled (Retried r) = True"
| "settled st = False"

fun rejected :: "stage \<Rightarrow> bool" where
  "rejected (Retried (Rejected err)) = True"
| "rejected st = False"

text \<open>
  What makes a task run its next piece: the queue starts it, the service answers the
  call it awaits (\<open>Inl\<close> is the error the call throws), or its timer fires.
\<close>

datatype input = Start | Answer "api_error + unit" | Wake

text \<open>The progress line of lines 295 to 297.\<close>

definition progress_line :: "nat \<Rightarrow> nat \<Rightarrow> bool \<Rightarrow> event list" where
  "progress_line p tot dryRun =
     (if p mod 10 = 0 \<or> p = tot then [Console (Progress p tot dryRun)] else [])"

text \<open>
  One piece of the task function: from the stage of the task, the input and the value
  \<open>p\<close> of the shared counter \<^verbatim>\<open>processed\<close>, the next stage, the new value of the
  counter and the effects, in order. The condition on \<^verbatim>\<open>retry_after\<close> is a truth test:
  a missing value and zero fail it. \<open>Sleep\<close> records the setting of the timer, with its
  delay in milliseconds. An input that the task does not wait for changes nothing.
\<close>

fun task_step ::
  "bool \<Rightarrow> nat \<Rightarrow> member \<Rightarrow> string \<Rightarrow> nat \<Rightarrow> stage \<Rightarrow> input \<Rightarrow> stage \<times> nat \<times> event list" where
  "task_step dryRun tot user msg p Admitted Start =
     (if dryRun
      then (Completed, p + 1,
            Console (DryRunWouldSend (user_id user) msg) # progress_line (p + 1) tot dryRun)
      else (AwaitingSend, p, sendMessage (user_id user) msg))"
| "task_step dryRun tot user msg p AwaitingSend (Answer (Inr u)) =
     (Completed, p + 1, progress_line (p + 1) tot dryRun)"
| "task_step dryRun tot user msg p AwaitingSend (Answer (Inl err)) =
     (case retry_after err of
        None \<Rightarrow> (Abandoned, p, [Console (ErrorSending (user_id user) err)])
      | Some seconds \<Rightarrow>
          if code err = Some 429 \<and> seconds \<noteq> 0
          then (AwaitingTimer, p,
                [Console (ErrorSending (user_id user) err), Sleep (seconds * 1000)])
          else (Abandoned, p, [Console (ErrorSending (user_id user) err)]))"
| "task_step dryRun tot user msg p AwaitingTimer Wake =
     (if \<not> dryRun then (AwaitingRetry, p, sendMessage (user_id user) msg)
      else (Abandoned, p, []))"
| "task_step dryRun tot user msg p AwaitingRetry (Answer (Inr u)) = (Retried Fulfilled, p, [])"
| "task_step dryRun tot user msg p AwaitingRetry (Answer (Inl err2)) =
     (Retried (Rejected err2), p, [])"
| "task_step dryRun tot user msg p st inp = (st, p, [])"

text \<open>One task alone, given the inputs that reach it, in order.\<close>

fun feed ::
  "bool \<Rightarrow> nat \<Rightarrow> member \<Rightarrow> string \<Rightarrow> input list \<Rightarrow> stage \<times> nat \<times> event list
     \<Rightarrow> stage \<times> nat \<times> event list" where
  "feed dryRun tot user msg [] s = s"
| "feed dryRun tot user msg (inp # inps) (st, p, es) =
     (let (st1, p1, es1) = task_step dryRun tot user msg p st inp
      in feed dryRun tot user msg inps (st1, p1, es @ es1))"

text \<open>
  A run of \<^verbatim>\<open>broadcast\<close>: its parameter \<^verbatim>\<open>dryRun\<close>, its local variables
  \<^verbatim>\<open>total\<close> and \<^verbatim>\<open>processed\<close>, and the tasks it has handed to the queue, in the
  order of admission.
\<close>

record run =
  dry_run :: bool
  total_count :: nat
  processed :: nat
  tasks :: "task list"

text \<open>
  The queue is the library \<^verbatim>\<open>p-queue\<close>, which is not part of the repository, and
  when a call is answered is the service's matter. So the order in which the pieces of
  the tasks run is given from outside, as a schedule: a list of inputs, each with the
  position of the task it reaches. Nothing is assumed of a schedule: it may start the
  tasks in any order, leave tasks unfinished, or end at any point. An input whose
  position holds no task reaches nothing.
\<close>

type_synonym schedule = "(nat \<times> input) list"

definition step :: "nat \<times> input \<Rightarrow> run \<times> 's world \<Rightarrow> run \<times> 's world" where
  "step a s =
     (case a of (i, inp) \<Rightarrow>
      case s of (r, w) \<Rightarrow>
        if i < length (tasks r)
        then
          let t = tasks r ! i;
              (st, p, es) = task_step (dry_run r) (total_count r) (recipient t)
                              (personalizedMessage t) (processed r) (stage t) inp
          in (r\<lparr>processed := p, tasks := (tasks r)[i := t\<lparr>stage := st\<rparr>]\<rparr>,
              w\<lparr>trace := trace w @ es\<rparr>)
        else (r, w))"

fun exec :: "schedule \<Rightarrow> run \<times> 's world \<Rightarrow> run \<times> 's world" where
  "exec [] s = s"
| "exec (a # sched) s = exec sched (step a s)"

text \<open>
  The \<^verbatim>\<open>for\<close> loop of lines 280 to 308: the template function is applied to the
  fields of each recipient and a task is handed to the queue. When the template function
  throws, the loop ends there, with the tasks of the recipients before.
\<close>

fun admit :: "(member \<Rightarrow> string + string) \<Rightarrow> member list \<Rightarrow> string option \<times> task list" where
  "admit template [] = (None, [])"
| "admit template (user # users) =
     (case template user of
        Inl thrown \<Rightarrow> (Some thrown, [])
      | Inr personalized \<Rightarrow>
          let (e, ts) = admit template users
          in (e, \<lparr>recipient = user, personalizedMessage = personalized, stage = Admitted\<rparr> # ts))"

text \<open>
  The filter \<^verbatim>\<open>userObjects.filter(user => loadAllowlist().includes(String(user.id)))\<close>,
  which loads the allow list once for each member.
\<close>

fun allowedUsers_of :: "member list \<Rightarrow> lists \<Rightarrow> member list \<times> lists" where
  "allowedUsers_of [] st = ([], st)"
| "allowedUsers_of (user # users) st =
     (let (allowlist, st1) = loadAllowlist st;
          (rest, st2) = allowedUsers_of users st1
      in (if String_of (user_id user) \<in> set allowlist then user # rest else rest, st2))"

text \<open>The console report of lines 256 to 275.\<close>

definition report_filtering :: "member list \<Rightarrow> member list \<Rightarrow> 's world \<Rightarrow> 's world" where
  "report_filtering userObjects filteredUsers w =
     (let originalCount = int (length userObjects);
          filteredCount = originalCount - int (length filteredUsers)
      in if filteredCount > 0
         then
           let (allowlist, st1) = loadAllowlist (store w);
               allowlistActive = (length allowlist > 0)
           in if allowlistActive
              then
                let (allowedUsers, st2) = allowedUsers_of userObjects st1;
                    notAllowedCount = originalCount - int (length allowedUsers);
                    blockedFromAllowedCount =
                      int (length allowedUsers) - int (length filteredUsers);
                    w1 = emit (Console (AllowlistActive (int (length allowedUsers)) notAllowedCount))
                           (w\<lparr>store := st2\<rparr>)
                in if blockedFromAllowedCount > 0
                   then emit (Console (FilteredOutFromAllowed blockedFromAllowedCount)) w1
                   else w1
              else emit (Console (FilteredOutBlocked filteredCount)) (w\<lparr>store := st1\<rparr>)
         else w)"

text \<open>
  How a call of \<^verbatim>\<open>broadcast\<close> stands once the pieces of a schedule have run:
  \<^item> \<open>Threw\<close>: the template function threw in the loop, and the \<^verbatim>\<open>catch\<close> block of
    lines 310 to 312 threw the error again;
  \<^item> \<open>Pending\<close>: a task handed to the queue has not settled, so \<^verbatim>\<open>queue.onIdle()\<close>
    (line 309) has not resolved and the function has not returned;
  \<^item> \<open>Unhandled\<close>: every task has settled, one of them with a rejected promise that
    nothing handles; what the runtime does then is outside the model;
  \<^item> \<open>Returned\<close>: every task has settled with a fulfilled promise, and the function
    came to its end. It has no \<^verbatim>\<open>return\<close> statement: its value is \<^verbatim>\<open>undefined\<close>.
\<close>

datatype ending = Returned | Threw error | Pending | Unhandled

definition ending_of :: "string option \<Rightarrow> task list \<Rightarrow> ending" where
  "ending_of thrown ts =
     (case thrown of
        Some msg \<Rightarrow> Threw (TemplateFailure msg)
      | None \<Rightarrow>
          if \<not> list_all (\<lambda>t. settled (stage t)) ts then Pending
          else if list_ex (\<lambda>t. rejected (stage t)) ts then Unhandled
          else Returned)"

text \<open>
  \<^verbatim>\<open>broadcast\<close>: the filter and its console report, the loop that renders the text of
  each recipient and hands the tasks to the queue, and the pieces of the tasks that the
  schedule runs. Rendering writes nothing to the record of effects, so a piece that the
  queue runs while the loop is still going leaves the same record as one run after it.
  With the ending come the run and the world, for what can be observed of them. The
  line written by \<^verbatim>\<open>console.error\<close> in the \<^verbatim>\<open>catch\<close> block of lines 310 to 312 is
  not recorded.
\<close>

text \<open>The call \<^verbatim>\<open>template({first_name, last_name, id})\<close> of lines 281 to 285.\<close>

definition personalize :: "'s env \<Rightarrow> string \<Rightarrow> member \<Rightarrow> string + string" where
  "personalize env messageTemplate user =
     render env messageTemplate (first_name user) (last_name user) (user_id user)"

definition broadcast ::
  "'s env \<Rightarrow> schedule \<Rightarrow> string \<Rightarrow> member list \<Rightarrow> bool \<Rightarrow> 's world
     \<Rightarrow> ending \<times> run \<times> 's world" where
  "broadcast env sched messageTemplate userObjects dryRun w =
     (let template = personalize env messageTemplate;
          (filteredUsers, st1) = filterUsers userObjects (store w);
          w1 = report_filtering userObjects filteredUsers (w\<lparr>store := st1\<rparr>);
          (thrown, admitted) = admit template filteredUsers;
          (r, w2) = exec sched
                      (\<lparr>dry_run = dryRun, total_count = length filteredUsers,
                        processed = 0, tasks = admitted\<rparr>, w1)
      in (ending_of thrown (tasks r), r, w2))"

subsection \<open>The command \<^verbatim>\<open>/broadcast\<close> (lines 331 to 379)\<close>

text \<open>
  \<^verbatim>\<open>String.prototype.trim\<close> on the characters the model has: the white space and
  line terminators of the language below U+0100.
\<close>

definition isWhiteSpace :: "char \<Rightarrow> bool" where
  "isWhiteSpace c = (of_char c \<in> {9, 10, 11, 12, 13, 32, 160 :: nat})"

definition trim :: "string \<Rightarrow> string" where
  "trim s = rev (dropWhile isWhiteSpace (rev (dropWhile isWhiteSpace s)))"

text \<open>
  The handler of the command. It has no end (\<open>None\<close>) when the enumeration never ends,
  and it has not come to its end when \<^verbatim>\<open>broadcast\<close> has not returned.
\<close>

definition broadcast_command ::
  "'s env \<Rightarrow> schedule \<Rightarrow> int \<Rightarrow> 's world \<Rightarrow> 's world option" where
  "broadcast_command env sched from_id w =
     (if \<not> isAdmin env from_id then Some (emit (Reply AccessDenied) w)
      else
        case gatherUserIds env (GROUP_ID env) (emit (Reply UpdatingRecipientList) w) of
          None \<Rightarrow> None
        | Some (Inl err, w1) \<Rightarrow> Some (emit (Reply (BroadcastFailed err)) w1)
        | Some (Inr users, w1) \<Rightarrow>
            let (filteredUsers, st1) = filterUsers users (store w1);
                (allowlist, st2) = loadAllowlist st1;
                allowlistActive = (length allowlist > 0);
                w2 = w1\<lparr>store := st2\<rparr>
            in (case read_template env of
                  None \<Rightarrow> Some (emit (Reply CouldNotReadTemplate) w2)
                | Some content \<Rightarrow>
                    let templateContent = trim content
                    in if templateContent = [] then Some (emit (Reply TemplateFileEmpty) w2)
                       else
                         let (statusMessage, w3) =
                               (if allowlistActive
                                then
                                  let (allowedUsers, st3) = allowedUsers_of users (store w2);
                                      blockedFromAllowedCount =
                                        int (length allowedUsers) - int (length filteredUsers)
                                  in (SendingToAllowlisted (int (length filteredUsers))
                                        (int (length allowedUsers)) blockedFromAllowedCount,
                                      w2\<lparr>store := st3\<rparr>)
                                else
                                  let blockedCount =
                                        int (length users) - int (length filteredUsers)
                                  in if blockedCount > 0
                                     then (SendingToUnblocked (int (length filteredUsers))
                                             blockedCount, w2)
                                     else (SendingTo (int (length filteredUsers)), w2));
                             w4 = emit (Reply statusMessage) w3;
                             (res, r, w5) = broadcast env sched templateContent users False w4
                         in (case res of
                               Returned \<Rightarrow> Some (emit (Reply BroadcastComplete) w5)
                             | Threw err \<Rightarrow> Some (emit (Reply (BroadcastFailed err)) w5)
                             | Pending \<Rightarrow> None
                             | Unhandled \<Rightarrow> None)))"

subsection \<open>Reading the record of effects\<close>

fun sends :: "event list \<Rightarrow> (int \<times> string) list" where
  "sends [] = []"
| "sends (ApiSend peer_id text # es) = (peer_id, text) # sends es"
| "sends (_ # es) = sends es"

fun sleeps :: "event list \<Rightarrow> rat list" where
  "sleeps [] = []"
| "sleeps (Sleep ms # es) = ms # sleeps es"
| "sleeps (_ # es) = sleeps es"

fun simulated :: "event list \<Rightarrow> (int \<times> string) list" where
  "simulated [] = []"
| "simulated (Console (DryRunWouldSend peer_id text) # es) = (peer_id, text) # simulated es"
| "simulated (_ # es) = simulated es"

fun replies :: "event list \<Rightarrow> reply list" where
  "replies [] = []"
| "replies (Reply r # es) = r # replies es"
| "replies (_ # es) = replies es"

text \<open>
  Reading a task: to whom it sends what, whether it has started, and whether it has
  issued its second call.
\<close>

definition addressed :: "task \<Rightarrow> int \<times> string" where
  "addressed t = (user_id (recipient t), personalizedMessage t)"

fun has_started :: "stage \<Rightarrow> bool" where
  "has_started Admitted = False"
| "has_started st = True"

fun has_retried :: "stage \<Rightarrow> bool" where
  "has_retried AwaitingRetry = True"
| "has_retried (Retried r) = True"
| "has_retried st = False"

text \<open>
  The calls of \<^verbatim>\<open>messages.send\<close> that the tasks of a live run have issued, judged by
  their stages: one by each task that has started, one more by each that has issued its
  second call.
\<close>

definition calls_issued :: "task list \<Rightarrow> (int \<times> string) multiset" where
  "calls_issued ts =
     mset (map addressed (filter (\<lambda>t. has_started (stage t)) ts))
     + mset (map addressed (filter (\<lambda>t. has_retried (stage t)) ts))"

text \<open>
  The condition of line 300 on an error, and the stage at which a live task ends when
  the service gives the answer \<open>a\<close> to each of its calls.
\<close>

definition throttled :: "api_error \<Rightarrow> bool" where
  "throttled err =
     (case retry_after err of None \<Rightarrow> False | Some seconds \<Rightarrow> code err = Some 429 \<and> seconds \<noteq> 0)"

fun ends_at :: "api_error + unit \<Rightarrow> stage" where
  "ends_at (Inr u) = Completed"
| "ends_at (Inl err) = (if throttled err then Retried (Rejected err) else Abandoned)"

text \<open>A schedule in which every answer to the task at position \<open>i\<close> is \<open>v i\<close>.\<close>

definition answers_follow :: "(nat \<Rightarrow> api_error + unit) \<Rightarrow> schedule \<Rightarrow> bool" where
  "answers_follow v sched =
     list_all (\<lambda>(i, inp). case inp of Answer a \<Rightarrow> a = v i | Start \<Rightarrow> True | Wake \<Rightarrow> True) sched"

subsection \<open>Concrete surroundings used to exercise the theorems\<close>

definition member_of :: "int \<Rightarrow> member" where
  "member_of i = \<lparr>user_id = i, first_name = ''Ann'', last_name = ''Lee''\<rparr>"

definition no_lists :: lists where
  "no_lists = \<lparr>blocklist_file = Absent, allowlist_file = Absent,
     blocklistCache = None, allowlistCache = None,
     blocklistLastModified = 0, allowlistLastModified = 0\<rparr>"

definition both_lists :: lists where
  "both_lists = \<lparr>blocklist_file = Present 3 (StrArray [''5'']),
     allowlist_file = Present 4 (StrArray [''1'', ''2'', ''5'']),
     blocklistCache = None, allowlistCache = None,
     blocklistLastModified = 0, allowlistLastModified = 0\<rparr>"

text \<open>
  A service whose state counts the calls made so far. Its first page reports a total of
  2500, every later page a total of 1; each page holds one member, named after the offset.
  Its template engine appends the first name to the template.
\<close>

definition counting_env :: "nat env" where
  "counting_env = \<lparr>
     groups_getMembers = (\<lambda>n req.
       (Inr \<lparr>count = (if n = 0 then 2500 else 1), items = [member_of (offset req)]\<rparr>, Suc n)),
     write_peer_list_ok = True,
     read_template = Some ''Hello'',
     render = (\<lambda>template first last uid. Inr (template @ '' '' @ first)),
     GROUP_ID = ''club'',
     ADMIN_IDS = [1]\<rparr>"

definition fresh_world :: "lists \<Rightarrow> nat world" where
  "fresh_world st = \<lparr>net = 0, store = st, peer_list = None, trace = []\<rparr>"



text \<open>A conversion that reads the numerals \<^verbatim>\<open>"7"\<close> and \<^verbatim>\<open>"12"\<close> and nothing else.\<close>

definition digits_Number :: "string \<Rightarrow> jsnum" where
  "digits_Number s = (if s = ''7'' then Finite 7 else if s = ''12'' then Finite 12 else NaN)"

text \<open>The counting service with a template file that holds a space and a line feed.\<close>

definition blank_template_env :: "nat env" where
  "blank_template_env = counting_env\<lparr>read_template := Some [CHR '' '', CHR 0x0A]\<rparr>"

text \<open>A disk on which \<^verbatim>\<open>writeFileSync\<close> throws, and one on which it succeeds.\<close>

definition failing_disk :: io where
  "failing_disk = \<lparr>write_ok = False, write_mtime = 9, now = 10\<rparr>"

definition working_disk :: io where
  "working_disk = \<lparr>write_ok = True, write_mtime = 9, now = 10\<rparr>"




text \<open>
  Two schedules for \<open>n\<close> tasks: every task is started, in the order of admission; and
  every task is started and then the service answers each call, the call of task \<open>i\<close>
  with \<open>v i\<close>.
\<close>

definition all_started :: "nat \<Rightarrow> schedule" where
  "all_started n = map (\<lambda>i. (i, Start)) [0..<n]"




text \<open>The counting service with a template engine that throws on every call.\<close>

definition unparsable_env :: "nat env" where
  "unparsable_env = counting_env\<lparr>render := (\<lambda>template first last uid. Inl ''Parse error'')\<rparr>"

section \<open>Properties\<close>

subsection \<open>Auxiliary facts\<close>

lemma trace_emit [simp]: "trace (emit e w) = trace w @ [e]"
  and net_emit [simp]: "net (emit e w) = net w"
  and store_emit [simp]: "store (emit e w) = store w"
  and peer_list_emit [simp]: "peer_list (emit e w) = peer_list w"
  by (simp_all add: emit_def)

lemma requests_of_append [simp]: "requests_of (xs @ ys) = requests_of xs @ requests_of ys"
  by (induction xs rule: requests_of.induct) simp_all

lemma loadBlocklist_after_loadAllowlist:
  "fst (loadBlocklist (snd (loadAllowlist st))) = fst (loadBlocklist st)"
  by (simp add: loadBlocklist_def loadAllowlist_def
      split: list_file.splits option.splits json_body.splits)

lemma filterUsers_fst:
  "fst (filterUsers M st) =
     filter (\<lambda>u. String_of (user_id u) \<notin> set (fst (loadBlocklist st)))
       (filter (\<lambda>u. fst (loadAllowlist st) = []
                  \<or> String_of (user_id u) \<in> set (fst (loadAllowlist st))) M)"
proof -
  obtain A stA where a: "loadAllowlist st = (A, stA)" by (cases "loadAllowlist st")
  obtain B stB where b: "loadBlocklist stA = (B, stB)" by (cases "loadBlocklist stA")
  have "fst (loadBlocklist st) = B"
    using loadBlocklist_after_loadAllowlist [of st] a b by simp
  then show ?thesis
    by (auto simp: filterUsers_def a b Let_def intro: filter_cong)
qed

lemma sends_append [simp]: "sends (xs @ ys) = sends xs @ sends ys"
  by (induction xs rule: sends.induct) simp_all

lemma sleeps_append [simp]: "sleeps (xs @ ys) = sleeps xs @ sleeps ys"
  by (induction xs rule: sleeps.induct) simp_all

lemma simulated_append [simp]: "simulated (xs @ ys) = simulated xs @ simulated ys"
  by (induction xs rule: simulated.induct) simp_all

lemma replies_append [simp]: "replies (xs @ ys) = replies xs @ replies ys"
  by (induction xs rule: replies.induct) simp_all

lemma report_filtering_effects:
  "net (report_filtering U F w) = net w"
  "sends (trace (report_filtering U F w)) = sends (trace w)"
  "sleeps (trace (report_filtering U F w)) = sleeps (trace w)"
  "simulated (trace (report_filtering U F w)) = simulated (trace w)"
  "replies (trace (report_filtering U F w)) = replies (trace w)"
  "requests_of (trace (report_filtering U F w)) = requests_of (trace w)"
  by (simp_all add: report_filtering_def Let_def split: prod.splits)

lemma gather_loop_fetch:
  "1 \<le> k \<Longrightarrow> t \<le> offs + 1000 * int k \<Longrightarrow> (1 < k \<longrightarrow> offs + 1000 * (int k - 1) < t)
   \<Longrightarrow> gather_loop env gid ms offs (Some t) w = Some (fetch_pages env gid t k ms offs w)"
proof (induction k arbitrary: ms offs w)
  case 0
  then show ?case by simp
next
  case (Suc k)
  let ?req = "\<lparr>group_id = gid, offset = offs, count_param = 1000\<rparr>"
  obtain a n where call: "groups_getMembers env (net w) ?req = (a, n)"
    by (cases "groups_getMembers env (net w) ?req")
  show ?case
  proof (cases a)
    case (Inl err)
    with call show ?thesis
      by (subst gather_loop.simps) (simp add: Let_def)
  next
    case (Inr data)
    show ?thesis
    proof (cases "t \<le> offs + 1000")
      case True
      with Suc.prems have "k = 0" by (cases k) auto
      with call Inr True show ?thesis
        by (subst gather_loop.simps) (simp add: Let_def)
    next
      case False
      with Suc.prems have k: "1 \<le> k" by (cases k) auto
      have b: "t \<le> (offs + 1000) + 1000 * int k" using Suc.prems by simp
      have c: "1 < k \<longrightarrow> (offs + 1000) + 1000 * (int k - 1) < t" using Suc.prems by auto
      note ih = Suc.IH [OF k b c]
      from call Inr False show ?thesis
        by (subst gather_loop.simps) (simp add: Let_def ih)
    qed
  qed
qed

lemma page_requests_size:
  "map count_param (page_requests gid offs k) = replicate k 1000
   \<and> map group_id (page_requests gid offs k) = replicate k gid"
  by (induction k arbitrary: offs) simp_all

lemma pages_needed_pos: "1 \<le> pages_needed t"
  unfolding pages_needed_def by (simp; linarith)

lemma pages_needed_reaches: "t \<le> 1000 * int (pages_needed t)"
  unfolding pages_needed_def by (simp; linarith)

lemma pages_needed_least: "1 \<le> k \<Longrightarrow> k < pages_needed t \<Longrightarrow> 1000 * int k < t"
  unfolding pages_needed_def by (simp split: if_splits; linarith)

lemma gather_loop_first:
  "gather_loop env gid [] 0 None w =
     Some (case groups_getMembers env (net w) \<lparr>group_id = gid, offset = 0, count_param = 1000\<rparr> of
             (Inl err, n) \<Rightarrow>
               (Inl err, emit (ApiGetMembers \<lparr>group_id = gid, offset = 0, count_param = 1000\<rparr>) w\<lparr>net := n\<rparr>)
           | (Inr data, n) \<Rightarrow>
               fetch_pages env gid (count data) (pages_needed (count data) - 1) (items data) 1000
                 (emit (Console (Gathered (length (items data)) (count data)))
                    (emit (ApiGetMembers \<lparr>group_id = gid, offset = 0, count_param = 1000\<rparr>) w\<lparr>net := n\<rparr>)))"
proof -
  let ?req = "\<lparr>group_id = gid, offset = 0, count_param = 1000\<rparr>"
  obtain a n where call: "groups_getMembers env (net w) ?req = (a, n)"
    by (cases "groups_getMembers env (net w) ?req")
  show ?thesis
  proof (cases a)
    case (Inl err)
    with call show ?thesis
      by (subst gather_loop.simps) (simp add: Let_def)
  next
    case (Inr data)
    show ?thesis
    proof (cases "count data \<le> 1000")
      case True
      then have "pages_needed (count data) = 1" by (simp add: pages_needed_def)
      with call Inr True show ?thesis
        by (subst gather_loop.simps) (simp add: Let_def)
    next
      case False
      define k where "k = pages_needed (count data) - 1"
      have p: "pages_needed (count data) = Suc k"
        using pages_needed_pos [of "count data"] by (simp add: k_def)
      have k1: "1 \<le> k"
        using False p unfolding pages_needed_def by (simp split: if_splits; linarith)
      have b: "count data \<le> 1000 + 1000 * int k"
        using pages_needed_reaches [of "count data"] p by simp
      have c: "1 < k \<longrightarrow> 1000 + 1000 * (int k - 1) < count data"
        using pages_needed_least [of k "count data"] p k1 by simp
      note eq = gather_loop_fetch [OF k1 b c]
      from call Inr False show ?thesis
        by (subst gather_loop.simps) (simp add: Let_def eq k_def)
    qed
  qed
qed

lemma fetch_pages_requests:
  "length (requests_of (trace (snd (fetch_pages env gid t k ms offs w))))
     \<le> length (requests_of (trace w)) + k"
proof (induction k arbitrary: ms offs w)
  case 0
  then show ?case by simp
next
  case (Suc k)
  let ?req = "\<lparr>group_id = gid, offset = offs, count_param = 1000\<rparr>"
  obtain a n where call: "groups_getMembers env (net w) ?req = (a, n)"
    by (cases "groups_getMembers env (net w) ?req")
  show ?case
  proof (cases a)
    case (Inl err)
    with call show ?thesis by (simp add: Let_def)
  next
    case (Inr data)
    with call show ?thesis
      using Suc.IH [of "ms @ items data" "offs + 1000"
          "emit (Console (Gathered (length ms + length (items data)) t))
             (emit (ApiGetMembers ?req) w\<lparr>net := n\<rparr>)"]
      by (simp add: Let_def)
  qed
qed

lemma fetch_pages_answers:
  "list_all succeeded (answers env (net w) (page_requests gid offs k)) \<Longrightarrow>
   \<exists>w'. fetch_pages env gid t k ms offs w =
          (Inr (ms @ concat (map page_items (answers env (net w) (page_requests gid offs k)))), w')
      \<and> requests_of (trace w') = requests_of (trace w) @ page_requests gid offs k"
proof (induction k arbitrary: ms offs w)
  case 0
  then show ?case by simp
next
  case (Suc k)
  let ?req = "\<lparr>group_id = gid, offset = offs, count_param = 1000\<rparr>"
  obtain a n where call: "groups_getMembers env (net w) ?req = (a, n)"
    by (cases "groups_getMembers env (net w) ?req")
  from Suc.prems call obtain data where a: "a = Inr data"
    by (cases a) simp_all
  let ?w = "emit (Console (Gathered (length (ms @ items data)) t))
             (emit (ApiGetMembers ?req) w\<lparr>net := n\<rparr>)"
  have "list_all succeeded (answers env (net ?w) (page_requests gid (offs + 1000) k))"
    using Suc.prems call a by simp
  from Suc.IH [OF this, of "ms @ items data"] call a show ?case
    by (simp add: Let_def)
qed

lemma page_requests_offsets:
  "map offset (page_requests gid offs k) = map (\<lambda>j. offs + 1000 * int j) [0..<k]"
proof (induction k arbitrary: offs)
  case 0
  then show ?case by simp
next
  case (Suc k)
  have "[0..<Suc k] = 0 # map Suc [0..<k]"
    by (metis map_Suc_upt upt_conv_Cons zero_less_Suc)
  then have "map (\<lambda>j. offs + 1000 * int j) [0..<Suc k]
          = offs # map (\<lambda>j. offs + 1000 + 1000 * int j) [0..<k]"
    by (simp add: o_def algebra_simps del: upt_Suc)
  then show ?case
    using Suc.IH [of "offs + 1000"] by (simp del: upt_Suc)
qed


lemma fetch_pages_effects:
  "sends (trace (snd (fetch_pages env gid t k ms offs w))) = sends (trace w)
   \<and> sleeps (trace (snd (fetch_pages env gid t k ms offs w))) = sleeps (trace w)
   \<and> simulated (trace (snd (fetch_pages env gid t k ms offs w))) = simulated (trace w)
   \<and> replies (trace (snd (fetch_pages env gid t k ms offs w))) = replies (trace w)"
proof (induction k arbitrary: ms offs w)
  case 0
  then show ?case by simp
next
  case (Suc k)
  let ?req = "\<lparr>group_id = gid, offset = offs, count_param = 1000\<rparr>"
  obtain a n where call: "groups_getMembers env (net w) ?req = (a, n)"
    by (cases "groups_getMembers env (net w) ?req")
  show ?case
  proof (cases a)
    case (Inl err)
    with call show ?thesis by (simp add: Let_def)
  next
    case (Inr data)
    with call show ?thesis
      using Suc.IH [of "ms @ items data" "offs + 1000"
          "emit (Console (Gathered (length ms + length (items data)) t))
             (emit (ApiGetMembers ?req) w\<lparr>net := n\<rparr>)"]
      by (simp add: Let_def)
  qed
qed

lemma gatherUserIds_effects:
  assumes "gatherUserIds env gid w = Some (r, w')"
  shows "sends (trace w') = sends (trace w) \<and> sleeps (trace w') = sleeps (trace w)
     \<and> simulated (trace w') = simulated (trace w) \<and> replies (trace w') = replies (trace w)"
proof -
  let ?req = "\<lparr>group_id = gid, offset = 0, count_param = 1000\<rparr>"
  obtain a n where call: "groups_getMembers env (net w) ?req = (a, n)"
    by (cases "groups_getMembers env (net w) ?req")
  show ?thesis
  proof (cases a)
    case (Inl err)
    with call assms show ?thesis
      by (auto simp: gatherUserIds_def gather_loop_first)
  next
    case (Inr data)
    let ?w = "emit (Console (Gathered (length (items data)) (count data)))
                (emit (ApiGetMembers ?req) w\<lparr>net := n\<rparr>)"
    let ?k = "pages_needed (count data) - 1"
    obtain r1 w1 where f: "fetch_pages env gid (count data) ?k (items data) 1000 ?w = (r1, w1)"
      by (cases "fetch_pages env gid (count data) ?k (items data) 1000 ?w")
    from fetch_pages_effects [of env gid "count data" ?k "items data" 1000 ?w] f
    have e: "sends (trace w1) = sends (trace w) \<and> sleeps (trace w1) = sleeps (trace w)
      \<and> simulated (trace w1) = simulated (trace w) \<and> replies (trace w1) = replies (trace w)"
      by simp
    from assms call Inr f have "trace w' = trace w1"
      by (cases r1) (auto simp: gatherUserIds_def gather_loop_first split: if_splits)
    with e show ?thesis by simp
  qed
qed

lemma gatherUserIds_returns:
  "\<exists>r w'. gatherUserIds env gid w = Some (r, w')"
  by (simp add: gatherUserIds_def gather_loop_first split: prod.splits sum.splits)

lemma gather_demo:
  "gatherUserIds blank_template_env ''club'' (emit (Reply UpdatingRecipientList) (fresh_world st))
    = Some (Inr [member_of 0, member_of 1000, member_of 2000],
        \<lparr>net = 3, store = st,
         peer_list = Some [member_of 0, member_of 1000, member_of 2000],
         trace = [Reply UpdatingRecipientList,
           ApiGetMembers \<lparr>group_id = ''club'', offset = 0, count_param = 1000\<rparr>,
           Console (Gathered 1 2500),
           ApiGetMembers \<lparr>group_id = ''club'', offset = 1000, count_param = 1000\<rparr>,
           Console (Gathered 2 2500),
           ApiGetMembers \<lparr>group_id = ''club'', offset = 2000, count_param = 1000\<rparr>,
           Console (Gathered 3 2500)]\<rparr>)"
  by (simp add: gatherUserIds_def gather_loop_first blank_template_env_def counting_env_def
      fresh_world_def pages_needed_def eval_nat_numeral emit_def)

lemma loadBlocklist_again:
  "fst (loadBlocklist (snd (loadBlocklist st))) = fst (loadBlocklist st)"
  by (simp add: loadBlocklist_def split: list_file.splits option.splits json_body.splits)

lemma loadAllowlist_again:
  "fst (loadAllowlist (snd (loadAllowlist st))) = fst (loadAllowlist st)"
  by (simp add: loadAllowlist_def split: list_file.splits option.splits json_body.splits)

lemma loadBlocklist_file:
  "blocklist_file (snd (loadBlocklist st)) = blocklist_file st"
  by (simp add: loadBlocklist_def split: list_file.splits option.splits json_body.splits)

lemma loadAllowlist_file:
  "allowlist_file (snd (loadAllowlist st)) = allowlist_file st"
  by (simp add: loadAllowlist_def split: list_file.splits option.splits json_body.splits)

lemma isValidUserId_iff:
  "isValidUserId Number userId \<longleftrightarrow> (\<exists>k::int. 0 < k \<and> Number userId = Finite (of_int k))"
proof (cases "Number userId")
  case (Finite q)
  have "(0 < q \<and> of_int \<lfloor>q\<rfloor> = q) \<longleftrightarrow> (\<exists>k::int. 0 < k \<and> q = of_int k)"
  proof
    assume a: "0 < q \<and> of_int \<lfloor>q\<rfloor> = q"
    then have "0 < \<lfloor>q\<rfloor>" by (metis of_int_0_less_iff)
    with a show "\<exists>k::int. 0 < k \<and> q = of_int k" by metis
  next
    assume "\<exists>k::int. 0 < k \<and> q = of_int k"
    then show "0 < q \<and> of_int \<lfloor>q\<rfloor> = q" by auto
  qed
  with Finite show ?thesis by (simp add: isValidUserId_def)
qed (simp_all add: isValidUserId_def)

lemma addToBlocklist_outcomes:
  "(case addToBlocklist Number env userId st of (res, st') \<Rightarrow>
      (res = Inl InvalidUserIdFormat \<longleftrightarrow> \<not> isValidUserId Number userId)
    \<and> (\<not> isValidUserId Number userId \<longrightarrow> st' = st)
    \<and> (isValidUserId Number userId \<and> userId \<notin> set (fst (loadBlocklist st)) \<and> write_ok env \<longrightarrow>
          res = Inr True
        \<and> blocklist_file st' = Present (write_mtime env) (StrArray (fst (loadBlocklist st) @ [userId]))
        \<and> fst (loadBlocklist st') = fst (loadBlocklist st) @ [userId])
    \<and> (isValidUserId Number userId \<and> userId \<notin> set (fst (loadBlocklist st)) \<and> \<not> write_ok env \<longrightarrow>
          res = Inl FailedToSaveBlocklist \<and> blocklist_file st' = blocklist_file st)
    \<and> (isValidUserId Number userId \<and> userId \<in> set (fst (loadBlocklist st)) \<longrightarrow>
          res = Inr False \<and> blocklist_file st' = blocklist_file st
        \<and> fst (loadBlocklist st') = fst (loadBlocklist st)))"
proof -
  obtain L st1 where l: "loadBlocklist st = (L, st1)" by (cases "loadBlocklist st")
  have f: "blocklist_file st1 = blocklist_file st"
    using loadBlocklist_file [of st] l by simp
  have again: "fst (loadBlocklist st1) = L"
    using loadBlocklist_again [of st] l by simp
  have saved: "fst (loadBlocklist (st1\<lparr>blocklist_file := Present (write_mtime env) (StrArray (L @ [userId])),
      blocklistCache := Some (L @ [userId]), blocklistLastModified := now env\<rparr>)) = L @ [userId]"
    by (simp add: loadBlocklist_def)
  show ?thesis
    using f again saved
    by (simp add: addToBlocklist_def l saveBlocklist_def Let_def)
qed

lemma addToAllowlist_outcomes:
  "(case addToAllowlist Number env userId st of (res, st') \<Rightarrow>
      (res = Inl InvalidUserIdFormat \<longleftrightarrow> \<not> isValidUserId Number userId)
    \<and> (\<not> isValidUserId Number userId \<longrightarrow> st' = st)
    \<and> (isValidUserId Number userId \<and> userId \<notin> set (fst (loadAllowlist st)) \<and> write_ok env \<longrightarrow>
          res = Inr True
        \<and> allowlist_file st' = Present (write_mtime env) (StrArray (fst (loadAllowlist st) @ [userId]))
        \<and> fst (loadAllowlist st') = fst (loadAllowlist st) @ [userId])
    \<and> (isValidUserId Number userId \<and> userId \<notin> set (fst (loadAllowlist st)) \<and> \<not> write_ok env \<longrightarrow>
          res = Inl FailedToSaveAllowlist \<and> allowlist_file st' = allowlist_file st)
    \<and> (isValidUserId Number userId \<and> userId \<in> set (fst (loadAllowlist st)) \<longrightarrow>
          res = Inr False \<and> allowlist_file st' = allowlist_file st
        \<and> fst (loadAllowlist st') = fst (loadAllowlist st)))"
proof -
  obtain L st1 where l: "loadAllowlist st = (L, st1)" by (cases "loadAllowlist st")
  have f: "allowlist_file st1 = allowlist_file st"
    using loadAllowlist_file [of st] l by simp
  have again: "fst (loadAllowlist st1) = L"
    using loadAllowlist_again [of st] l by simp
  have saved: "fst (loadAllowlist (st1\<lparr>allowlist_file := Present (write_mtime env) (StrArray (L @ [userId])),
      allowlistCache := Some (L @ [userId]), allowlistLastModified := now env\<rparr>)) = L @ [userId]"
    by (simp add: loadAllowlist_def)
  show ?thesis
    using f again saved
    by (simp add: addToAllowlist_def l saveAllowlist_def Let_def)
qed

lemma filter_update_mset:
  assumes "i < length xs" and "P (xs ! i) \<longrightarrow> P x" and "f x = f (xs ! i)"
  shows "mset (map f (filter P (xs[i := x]))) =
           mset (map f (filter P xs)) + (if P x \<and> \<not> P (xs ! i) then {#f x#} else {#})"
  using assms
proof (induction xs arbitrary: i)
  case Nil
  then show ?case by simp
next
  case (Cons y ys)
  show ?case
  proof (cases i)
    case 0
    with Cons.prems show ?thesis by auto
  next
    case (Suc j)
    with Cons.prems Cons.IH [of j] show ?thesis by auto
  qed
qed

lemma filter_update_length:
  assumes "i < length xs" and "P (xs ! i) \<longrightarrow> P x"
  shows "length (filter P (xs[i := x])) =
           length (filter P xs) + (if P x \<and> \<not> P (xs ! i) then 1 else 0)"
  using assms
proof (induction xs arbitrary: i)
  case Nil
  then show ?case by simp
next
  case (Cons y ys)
  show ?case
  proof (cases i)
    case 0
    with Cons.prems show ?thesis by auto
  next
    case (Suc j)
    with Cons.prems Cons.IH [of j] show ?thesis by auto
  qed
qed

lemma task_step_live:
  assumes "task_step False tot u m p st inp = (st', p', es)"
  shows "(has_started st \<longrightarrow> has_started st') \<and> (has_retried st \<longrightarrow> has_retried st')
     \<and> (st = Completed \<longrightarrow> st' = Completed)
     \<and> sends es = (if has_started st' \<and> \<not> has_started st then [(user_id u, m)] else [])
                  @ (if has_retried st' \<and> \<not> has_retried st then [(user_id u, m)] else [])
     \<and> p' = p + (if st' = Completed \<and> st \<noteq> Completed then 1 else 0)
     \<and> simulated es = []"
  using assms
  by (cases "(False, tot, u, m, p, st, inp)" rule: task_step.cases)
    (auto simp: sendMessage_def progress_line_def split: option.splits if_splits)

lemma task_step_dry:
  assumes "task_step True tot u m p st inp = (st', p', es)" and "st = Admitted \<or> st = Completed"
  shows "(st' = Admitted \<or> st' = Completed) \<and> (st = Completed \<longrightarrow> st' = Completed)
     \<and> sends es = [] \<and> sleeps es = []
     \<and> simulated es = (if st' = Completed \<and> st \<noteq> Completed then [(user_id u, m)] else [])
     \<and> p' = p + (if st' = Completed \<and> st \<noteq> Completed then 1 else 0)"
  using assms
  by (cases "(True, tot, u, m, p, st, inp)" rule: task_step.cases)
    (auto simp: sendMessage_def progress_line_def split: option.splits if_splits)

lemma task_step_quiet:
  assumes "task_step dryRun tot u m p st inp = (st', p', es)"
  shows "replies es = [] \<and> requests_of es = []"
  using assms
  by (cases "(dryRun, tot, u, m, p, st, inp)" rule: task_step.cases)
    (auto simp: sendMessage_def progress_line_def split: option.splits if_splits)

lemma addressed_stage [simp]: "addressed (t\<lparr>stage := st\<rparr>) = addressed t"
  by (simp add: addressed_def)

lemma step_inside:
  assumes "i < length (tasks r)"
    and "task_step (dry_run r) (total_count r) (recipient (tasks r ! i))
           (personalizedMessage (tasks r ! i)) (processed r) (stage (tasks r ! i)) inp = (st, p, es)"
  shows "step (i, inp) (r, w) =
           (r\<lparr>processed := p, tasks := (tasks r)[i := (tasks r ! i)\<lparr>stage := st\<rparr>]\<rparr>,
            w\<lparr>trace := trace w @ es\<rparr>)"
  using assms by (simp add: step_def Let_def)

lemma step_outside: "\<not> i < length (tasks r) \<Longrightarrow> step (i, inp) (r, w) = (r, w)"
  by (simp add: step_def)

lemma step_frame:
  assumes "step a (r, w) = (r', w')"
  shows "dry_run r' = dry_run r \<and> total_count r' = total_count r
     \<and> length (tasks r') = length (tasks r)
     \<and> map recipient (tasks r') = map recipient (tasks r)
     \<and> map personalizedMessage (tasks r') = map personalizedMessage (tasks r)
     \<and> net w' = net w \<and> store w' = store w \<and> peer_list w' = peer_list w
     \<and> replies (trace w') = replies (trace w)
     \<and> requests_of (trace w') = requests_of (trace w)"
proof -
  obtain i inp where a: "a = (i, inp)" by (cases a)
  show ?thesis
  proof (cases "i < length (tasks r)")
    case False
    with assms a show ?thesis by (simp add: step_outside)
  next
    case True
    obtain st p es where ts: "task_step (dry_run r) (total_count r) (recipient (tasks r ! i))
           (personalizedMessage (tasks r ! i)) (processed r) (stage (tasks r ! i)) inp = (st, p, es)"
      by (cases "task_step (dry_run r) (total_count r) (recipient (tasks r ! i))
           (personalizedMessage (tasks r ! i)) (processed r) (stage (tasks r ! i)) inp")
    from step_inside [OF True ts, of w] assms a
    have r': "r' = r\<lparr>processed := p, tasks := (tasks r)[i := (tasks r ! i)\<lparr>stage := st\<rparr>]\<rparr>"
      and w': "w' = w\<lparr>trace := trace w @ es\<rparr>"
      by simp_all
    have m1: "map recipient ((tasks r)[i := (tasks r ! i)\<lparr>stage := st\<rparr>]) = map recipient (tasks r)"
      using True by (simp add: map_update list_update_same_conv)
    have m2: "map personalizedMessage ((tasks r)[i := (tasks r ! i)\<lparr>stage := st\<rparr>])
                = map personalizedMessage (tasks r)"
      using True by (simp add: map_update list_update_same_conv)
    from task_step_quiet [OF ts] m1 m2 show ?thesis
      by (simp add: r' w')
  qed
qed

lemma exec_frame:
  "exec sched (r, w) = (r', w') \<Longrightarrow>
     dry_run r' = dry_run r \<and> total_count r' = total_count r
     \<and> length (tasks r') = length (tasks r)
     \<and> map recipient (tasks r') = map recipient (tasks r)
     \<and> map personalizedMessage (tasks r') = map personalizedMessage (tasks r)
     \<and> net w' = net w \<and> store w' = store w \<and> peer_list w' = peer_list w
     \<and> replies (trace w') = replies (trace w)
     \<and> requests_of (trace w') = requests_of (trace w)"
proof (induction sched arbitrary: r w)
  case Nil
  then show ?case by simp
next
  case (Cons a sched)
  obtain r1 w1 where one: "step a (r, w) = (r1, w1)" by (cases "step a (r, w)")
  from Cons.prems one have "exec sched (r1, w1) = (r', w')" by simp
  from Cons.IH [OF this] step_frame [OF one] show ?case by simp
qed

lemma step_processed:
  assumes "step a (r, w) = (r', w')"
  shows "\<exists>d. processed r' = processed r + d
           \<and> length (filter (\<lambda>t. stage t = Completed) (tasks r'))
               = length (filter (\<lambda>t. stage t = Completed) (tasks r)) + d"
proof -
  obtain i inp where a: "a = (i, inp)" by (cases a)
  show ?thesis
  proof (cases "i < length (tasks r)")
    case False
    with assms a show ?thesis by (simp add: step_outside)
  next
    case True
    let ?t = "tasks r ! i"
    obtain st p es where ts: "task_step (dry_run r) (total_count r) (recipient ?t)
           (personalizedMessage ?t) (processed r) (stage ?t) inp = (st, p, es)"
      by (cases "task_step (dry_run r) (total_count r) (recipient ?t)
           (personalizedMessage ?t) (processed r) (stage ?t) inp")
    from step_inside [OF True ts, of w] assms a
    have r': "r' = r\<lparr>processed := p, tasks := (tasks r)[i := ?t\<lparr>stage := st\<rparr>]\<rparr>"
      by simp
    have mono: "(stage ?t = Completed \<longrightarrow> st = Completed)
        \<and> p = processed r + (if st = Completed \<and> stage ?t \<noteq> Completed then 1 else 0)"
      using ts
      by (cases "(dry_run r, total_count r, recipient ?t, personalizedMessage ?t, processed r, stage ?t, inp)"
            rule: task_step.cases)
        (auto split: option.splits if_splits)
    from filter_update_length [OF True, of "\<lambda>t. stage t = Completed" "?t\<lparr>stage := st\<rparr>"] mono
    show ?thesis by (simp add: r')
  qed
qed

lemma exec_processed:
  "exec sched (r, w) = (r', w') \<Longrightarrow>
     \<exists>d. processed r' = processed r + d
        \<and> length (filter (\<lambda>t. stage t = Completed) (tasks r'))
            = length (filter (\<lambda>t. stage t = Completed) (tasks r)) + d"
proof (induction sched arbitrary: r w)
  case Nil
  then show ?case by simp
next
  case (Cons a sched)
  obtain r1 w1 where one: "step a (r, w) = (r1, w1)" by (cases "step a (r, w)")
  from Cons.prems one have "exec sched (r1, w1) = (r', w')" by simp
  from Cons.IH [OF this] obtain d2 where
    "processed r' = processed r1 + d2"
    "length (filter (\<lambda>t. stage t = Completed) (tasks r'))
       = length (filter (\<lambda>t. stage t = Completed) (tasks r1)) + d2"
    by blast
  moreover from step_processed [OF one] obtain d1 where
    "processed r1 = processed r + d1"
    "length (filter (\<lambda>t. stage t = Completed) (tasks r1))
       = length (filter (\<lambda>t. stage t = Completed) (tasks r)) + d1"
    by blast
  ultimately show ?case
    by (intro exI [of _ "d1 + d2"]) simp
qed

lemma step_live_sends:
  assumes "\<not> dry_run r" and "step a (r, w) = (r', w')"
  shows "\<exists>D. mset (sends (trace w')) = mset (sends (trace w)) + D
            \<and> calls_issued (tasks r') = calls_issued (tasks r) + D"
    and "simulated (trace w') = simulated (trace w)"
proof -
  obtain i inp where a: "a = (i, inp)" by (cases a)
  have "(\<exists>D. mset (sends (trace w')) = mset (sends (trace w)) + D
            \<and> calls_issued (tasks r') = calls_issued (tasks r) + D)
     \<and> simulated (trace w') = simulated (trace w)"
  proof (cases "i < length (tasks r)")
    case False
    with assms a show ?thesis by (simp add: step_outside)
  next
    case True
    let ?t = "tasks r ! i"
    obtain st p es where ts: "task_step (dry_run r) (total_count r) (recipient ?t)
           (personalizedMessage ?t) (processed r) (stage ?t) inp = (st, p, es)"
      by (cases "task_step (dry_run r) (total_count r) (recipient ?t)
           (personalizedMessage ?t) (processed r) (stage ?t) inp")
    from step_inside [OF True ts, of w] assms a
    have r': "tasks r' = (tasks r)[i := ?t\<lparr>stage := st\<rparr>]"
      and w': "trace w' = trace w @ es"
      by auto
    from ts assms(1) have live: "task_step False (total_count r) (recipient ?t)
           (personalizedMessage ?t) (processed r) (stage ?t) inp = (st, p, es)"
      by simp
    note facts = task_step_live [OF live]
    have s1: "mset (map addressed (filter (\<lambda>t. has_started (stage t)) (tasks r')))
        = mset (map addressed (filter (\<lambda>t. has_started (stage t)) (tasks r)))
          + (if has_started st \<and> \<not> has_started (stage ?t) then {#addressed ?t#} else {#})"
      using filter_update_mset [OF True, of "\<lambda>t. has_started (stage t)" "?t\<lparr>stage := st\<rparr>" addressed]
        facts by (simp add: r')
    have s2: "mset (map addressed (filter (\<lambda>t. has_retried (stage t)) (tasks r')))
        = mset (map addressed (filter (\<lambda>t. has_retried (stage t)) (tasks r)))
          + (if has_retried st \<and> \<not> has_retried (stage ?t) then {#addressed ?t#} else {#})"
      using filter_update_mset [OF True, of "\<lambda>t. has_retried (stage t)" "?t\<lparr>stage := st\<rparr>" addressed]
        facts by (simp add: r')
    have s3: "mset (sends es)
        = (if has_started st \<and> \<not> has_started (stage ?t) then {#addressed ?t#} else {#})
          + (if has_retried st \<and> \<not> has_retried (stage ?t) then {#addressed ?t#} else {#})"
      using facts by (simp add: addressed_def)
    have "mset (sends (trace w')) = mset (sends (trace w)) + mset (sends es)"
      by (simp add: w')
    moreover have "calls_issued (tasks r') = calls_issued (tasks r) + mset (sends es)"
      unfolding calls_issued_def s1 s2 s3 by (simp add: ac_simps)
    moreover have "simulated (trace w') = simulated (trace w)"
      using facts by (simp add: w')
    ultimately show ?thesis by blast
  qed
  then show "\<exists>D. mset (sends (trace w')) = mset (sends (trace w)) + D
            \<and> calls_issued (tasks r') = calls_issued (tasks r) + D"
    and "simulated (trace w') = simulated (trace w)"
    by blast+
qed

lemma exec_live_sends:
  "\<not> dry_run r \<Longrightarrow> exec sched (r, w) = (r', w') \<Longrightarrow>
     (\<exists>D. mset (sends (trace w')) = mset (sends (trace w)) + D
         \<and> calls_issued (tasks r') = calls_issued (tasks r) + D)
     \<and> simulated (trace w') = simulated (trace w)"
proof (induction sched arbitrary: r w)
  case Nil
  then show ?case by simp
next
  case (Cons a sched)
  obtain r1 w1 where one: "step a (r, w) = (r1, w1)" by (cases "step a (r, w)")
  from Cons.prems one have rest: "exec sched (r1, w1) = (r', w')" by simp
  have live1: "\<not> dry_run r1" using step_frame [OF one] Cons.prems(1) by simp
  from step_live_sends [OF Cons.prems(1) one] obtain D1 where
    a1: "mset (sends (trace w1)) = mset (sends (trace w)) + D1"
    and b1: "calls_issued (tasks r1) = calls_issued (tasks r) + D1"
    and c1: "simulated (trace w1) = simulated (trace w)"
    by blast
  from Cons.IH [OF live1 rest] obtain D2 where
    a2: "mset (sends (trace w')) = mset (sends (trace w1)) + D2"
    and b2: "calls_issued (tasks r') = calls_issued (tasks r1) + D2"
    and c2: "simulated (trace w') = simulated (trace w1)"
    by blast
  show ?case
    apply (rule conjI)
     apply (rule exI [of _ "D1 + D2"])
     apply (simp add: a1 a2 b1 b2)
    apply (simp add: c1 c2)
    done
qed

lemma step_dry:
  assumes "dry_run r" and "\<forall>t \<in> set (tasks r). stage t = Admitted \<or> stage t = Completed"
    and "step a (r, w) = (r', w')"
  shows "(\<forall>t \<in> set (tasks r'). stage t = Admitted \<or> stage t = Completed)
     \<and> sends (trace w') = sends (trace w) \<and> sleeps (trace w') = sleeps (trace w)
     \<and> (\<exists>D. mset (simulated (trace w')) = mset (simulated (trace w)) + D
            \<and> mset (map addressed (filter (\<lambda>t. stage t = Completed) (tasks r')))
                = mset (map addressed (filter (\<lambda>t. stage t = Completed) (tasks r))) + D)"
proof -
  obtain i inp where a: "a = (i, inp)" by (cases a)
  show ?thesis
  proof (cases "i < length (tasks r)")
    case False
    with assms a show ?thesis by (simp add: step_outside)
  next
    case True
    let ?t = "tasks r ! i"
    obtain st p es where ts: "task_step (dry_run r) (total_count r) (recipient ?t)
           (personalizedMessage ?t) (processed r) (stage ?t) inp = (st, p, es)"
      by (cases "task_step (dry_run r) (total_count r) (recipient ?t)
           (personalizedMessage ?t) (processed r) (stage ?t) inp")
    from step_inside [OF True ts, of w] assms a
    have r': "tasks r' = (tasks r)[i := ?t\<lparr>stage := st\<rparr>]"
      and w': "trace w' = trace w @ es"
      by auto
    from ts assms(1) have dry: "task_step True (total_count r) (recipient ?t)
           (personalizedMessage ?t) (processed r) (stage ?t) inp = (st, p, es)"
      by simp
    have here: "stage ?t = Admitted \<or> stage ?t = Completed"
      using assms(2) True by simp
    note facts = task_step_dry [OF dry here]
    have inv: "\<forall>t \<in> set (tasks r'). stage t = Admitted \<or> stage t = Completed"
    proof
      fix t assume "t \<in> set (tasks r')"
      then have "t \<in> insert (?t\<lparr>stage := st\<rparr>) (set (tasks r))"
        using set_update_subset_insert [of "tasks r" i "?t\<lparr>stage := st\<rparr>"] by (auto simp: r')
      with facts assms(2) show "stage t = Admitted \<or> stage t = Completed" by auto
    qed
    have s1: "mset (map addressed (filter (\<lambda>t. stage t = Completed) (tasks r')))
        = mset (map addressed (filter (\<lambda>t. stage t = Completed) (tasks r)))
          + (if st = Completed \<and> stage ?t \<noteq> Completed then {#addressed ?t#} else {#})"
      using filter_update_mset [OF True, of "\<lambda>t. stage t = Completed" "?t\<lparr>stage := st\<rparr>" addressed]
        facts by (simp add: r')
    have s3: "mset (simulated es)
        = (if st = Completed \<and> stage ?t \<noteq> Completed then {#addressed ?t#} else {#})"
      using facts by (simp add: addressed_def)
    have "mset (simulated (trace w')) = mset (simulated (trace w)) + mset (simulated es)"
      by (simp add: w')
    moreover have "mset (map addressed (filter (\<lambda>t. stage t = Completed) (tasks r')))
        = mset (map addressed (filter (\<lambda>t. stage t = Completed) (tasks r))) + mset (simulated es)"
      by (simp only: s1 s3)
    moreover have "sends (trace w') = sends (trace w)" "sleeps (trace w') = sleeps (trace w)"
      using facts by (simp_all add: w')
    ultimately show ?thesis using inv by blast
  qed
qed

lemma exec_dry:
  "dry_run r \<Longrightarrow> \<forall>t \<in> set (tasks r). stage t = Admitted \<or> stage t = Completed \<Longrightarrow>
   exec sched (r, w) = (r', w') \<Longrightarrow>
     (\<forall>t \<in> set (tasks r'). stage t = Admitted \<or> stage t = Completed)
     \<and> sends (trace w') = sends (trace w) \<and> sleeps (trace w') = sleeps (trace w)
     \<and> (\<exists>D. mset (simulated (trace w')) = mset (simulated (trace w)) + D
            \<and> mset (map addressed (filter (\<lambda>t. stage t = Completed) (tasks r')))
                = mset (map addressed (filter (\<lambda>t. stage t = Completed) (tasks r))) + D)"
proof (induction sched arbitrary: r w)
  case Nil
  then show ?case by simp
next
  case (Cons a sched)
  obtain r1 w1 where one: "step a (r, w) = (r1, w1)" by (cases "step a (r, w)")
  from Cons.prems one have rest: "exec sched (r1, w1) = (r', w')" by simp
  have dry1: "dry_run r1" using step_frame [OF one] Cons.prems(1) by simp
  from step_dry [OF Cons.prems(1) Cons.prems(2) one] obtain D1 where
    i1: "\<forall>t \<in> set (tasks r1). stage t = Admitted \<or> stage t = Completed"
    and a1: "sends (trace w1) = sends (trace w)" "sleeps (trace w1) = sleeps (trace w)"
    and b1: "mset (simulated (trace w1)) = mset (simulated (trace w)) + D1"
    and c1: "mset (map addressed (filter (\<lambda>t. stage t = Completed) (tasks r1)))
                = mset (map addressed (filter (\<lambda>t. stage t = Completed) (tasks r))) + D1"
    by blast
  from Cons.IH [OF dry1 i1 rest] obtain D2 where
    i2: "\<forall>t \<in> set (tasks r'). stage t = Admitted \<or> stage t = Completed"
    and a2: "sends (trace w') = sends (trace w1)" "sleeps (trace w') = sleeps (trace w1)"
    and b2: "mset (simulated (trace w')) = mset (simulated (trace w1)) + D2"
    and c2: "mset (map addressed (filter (\<lambda>t. stage t = Completed) (tasks r')))
                = mset (map addressed (filter (\<lambda>t. stage t = Completed) (tasks r1))) + D2"
    by blast
  have "\<exists>D. mset (simulated (trace w')) = mset (simulated (trace w)) + D
            \<and> mset (map addressed (filter (\<lambda>t. stage t = Completed) (tasks r')))
                = mset (map addressed (filter (\<lambda>t. stage t = Completed) (tasks r))) + D"
    apply (rule exI [of _ "D1 + D2"])
    apply (simp only: b1 b2 c1 c2 add.assoc)
    done
  with i2 a1 a2 show ?case by simp
qed

lemma task_step_verdict:
  assumes "task_step False tot u m p st inp = (st', p', es)"
    and "\<forall>a. inp = Answer a \<longrightarrow> a = vi"
    and "settled st \<longrightarrow> st = ends_at vi"
    and "st = AwaitingTimer \<or> st = AwaitingRetry \<longrightarrow> (\<exists>err. vi = Inl err \<and> throttled err)"
  shows "(settled st' \<longrightarrow> st' = ends_at vi)
     \<and> (st' = AwaitingTimer \<or> st' = AwaitingRetry \<longrightarrow> (\<exists>err. vi = Inl err \<and> throttled err))"
  using assms
  by (cases "(False, tot, u, m, p, st, inp)" rule: task_step.cases)
    (auto simp: throttled_def split: option.splits if_splits)

lemma step_verdict:
  assumes "\<not> dry_run r"
    and "case a of (i, inp) \<Rightarrow> (case inp of Answer b \<Rightarrow> b = v i | Start \<Rightarrow> True | Wake \<Rightarrow> True)"
    and "\<forall>i < length (tasks r).
           (settled (stage (tasks r ! i)) \<longrightarrow> stage (tasks r ! i) = ends_at (v i))
         \<and> (stage (tasks r ! i) = AwaitingTimer \<or> stage (tasks r ! i) = AwaitingRetry
              \<longrightarrow> (\<exists>err. v i = Inl err \<and> throttled err))"
    and "step a (r, w) = (r', w')"
  shows "\<forall>i < length (tasks r').
           (settled (stage (tasks r' ! i)) \<longrightarrow> stage (tasks r' ! i) = ends_at (v i))
         \<and> (stage (tasks r' ! i) = AwaitingTimer \<or> stage (tasks r' ! i) = AwaitingRetry
              \<longrightarrow> (\<exists>err. v i = Inl err \<and> throttled err))"
proof -
  obtain i inp where a: "a = (i, inp)" by (cases a)
  show ?thesis
  proof (cases "i < length (tasks r)")
    case False
    with assms a show ?thesis by (simp add: step_outside)
  next
    case True
    let ?t = "tasks r ! i"
    obtain st p es where ts: "task_step (dry_run r) (total_count r) (recipient ?t)
           (personalizedMessage ?t) (processed r) (stage ?t) inp = (st, p, es)"
      by (cases "task_step (dry_run r) (total_count r) (recipient ?t)
           (personalizedMessage ?t) (processed r) (stage ?t) inp")
    from step_inside [OF True ts, of w] assms(4) a
    have r': "tasks r' = (tasks r)[i := ?t\<lparr>stage := st\<rparr>]"
      by auto
    from ts assms(1) have live: "task_step False (total_count r) (recipient ?t)
           (personalizedMessage ?t) (processed r) (stage ?t) inp = (st, p, es)"
      by simp
    have ans: "\<forall>b. inp = Answer b \<longrightarrow> b = v i"
      using assms(2) a by auto
    from task_step_verdict [OF live ans] assms(3) True
    have new: "(settled st \<longrightarrow> st = ends_at (v i))
      \<and> (st = AwaitingTimer \<or> st = AwaitingRetry \<longrightarrow> (\<exists>err. v i = Inl err \<and> throttled err))"
      by blast
    show ?thesis
    proof (intro allI impI)
      fix j assume "j < length (tasks r')"
      then have j: "j < length (tasks r)" by (simp add: r')
      show "(settled (stage (tasks r' ! j)) \<longrightarrow> stage (tasks r' ! j) = ends_at (v j))
         \<and> (stage (tasks r' ! j) = AwaitingTimer \<or> stage (tasks r' ! j) = AwaitingRetry
              \<longrightarrow> (\<exists>err. v j = Inl err \<and> throttled err))"
      proof (cases "j = i")
        case True
        with new j show ?thesis by (simp add: r')
      next
        case False
        with assms(3) j show ?thesis by (simp add: r')
      qed
    qed
  qed
qed

lemma exec_verdict:
  "\<not> dry_run r \<Longrightarrow> answers_follow v sched \<Longrightarrow>
   \<forall>i < length (tasks r).
           (settled (stage (tasks r ! i)) \<longrightarrow> stage (tasks r ! i) = ends_at (v i))
         \<and> (stage (tasks r ! i) = AwaitingTimer \<or> stage (tasks r ! i) = AwaitingRetry
              \<longrightarrow> (\<exists>err. v i = Inl err \<and> throttled err)) \<Longrightarrow>
   exec sched (r, w) = (r', w') \<Longrightarrow>
   \<forall>i < length (tasks r').
           (settled (stage (tasks r' ! i)) \<longrightarrow> stage (tasks r' ! i) = ends_at (v i))
         \<and> (stage (tasks r' ! i) = AwaitingTimer \<or> stage (tasks r' ! i) = AwaitingRetry
              \<longrightarrow> (\<exists>err. v i = Inl err \<and> throttled err))"
proof (induction sched arbitrary: r w)
  case Nil
  then show ?case by simp
next
  case (Cons a sched)
  obtain r1 w1 where one: "step a (r, w) = (r1, w1)" by (cases "step a (r, w)")
  from Cons.prems one have rest: "exec sched (r1, w1) = (r', w')" by simp
  have live1: "\<not> dry_run r1" using step_frame [OF one] Cons.prems(1) by simp
  have here: "case a of (i, inp) \<Rightarrow> (case inp of Answer b \<Rightarrow> b = v i | Start \<Rightarrow> True | Wake \<Rightarrow> True)"
    and later: "answers_follow v sched"
    using Cons.prems(2) by (simp_all add: answers_follow_def)
  from step_verdict [OF Cons.prems(1) here Cons.prems(3) one]
  show ?case by (rule Cons.IH [OF live1 later _ rest])
qed


lemma admit_fresh: "\<forall>t \<in> set (snd (admit template us)). stage t = Admitted"
  by (induction us) (auto split: sum.splits prod.splits)


lemma admit_thrown:
  "fst (admit template us) = None \<longleftrightarrow> (\<forall>u \<in> set us. \<exists>m. template u = Inr m)"
  by (induction us) (auto split: sum.splits prod.splits)

lemma ending_of_Returned:
  "(ending_of thrown ts = Returned) =
     (thrown = None \<and> (\<forall>t \<in> set ts. settled (stage t) \<and> \<not> rejected (stage t)))"
  by (auto simp: ending_of_def list_all_iff list_ex_iff split: option.splits)

lemma ending_of_Threw:
  "(ending_of thrown ts = Threw e) = (\<exists>msg. thrown = Some msg \<and> e = TemplateFailure msg)"
  by (auto simp: ending_of_def split: option.splits)

lemma ending_of_Unhandled:
  "(ending_of thrown ts = Unhandled) =
     (thrown = None \<and> (\<forall>t \<in> set ts. settled (stage t)) \<and> (\<exists>t \<in> set ts. rejected (stage t)))"
  by (auto simp: ending_of_def list_all_iff list_ex_iff split: option.splits)

lemma broadcast_unfold:
  "broadcast env sched T users dryRun w =
     (case exec sched
        (\<lparr>dry_run = dryRun, total_count = length (fst (filterUsers users (store w))),
          processed = 0,
          tasks = snd (admit (personalize env T) (fst (filterUsers users (store w))))\<rparr>,
         report_filtering users (fst (filterUsers users (store w)))
           (w\<lparr>store := snd (filterUsers users (store w))\<rparr>)) of
        (r, w2) \<Rightarrow>
          (ending_of (fst (admit (personalize env T) (fst (filterUsers users (store w)))))
             (tasks r), r, w2))"
  by (simp add: broadcast_def Let_def split: prod.splits)

lemma broadcast_run:
  assumes "broadcast env sched T users dryRun w = (res, r, w')"
  shows "exec sched
        (\<lparr>dry_run = dryRun, total_count = length (fst (filterUsers users (store w))),
          processed = 0,
          tasks = snd (admit (personalize env T) (fst (filterUsers users (store w))))\<rparr>,
         report_filtering users (fst (filterUsers users (store w)))
           (w\<lparr>store := snd (filterUsers users (store w))\<rparr>)) = (r, w')"
    and "res = ending_of (fst (admit (personalize env T) (fst (filterUsers users (store w)))))
                 (tasks r)"
  using assms by (auto simp: broadcast_unfold split: prod.splits)




lemma task_step_stage:
  "fst (task_step dryRun tot u m p st inp) = fst (task_step dryRun tot u m p' st inp)"
  by (cases "(dryRun, tot, u, m, p, st, inp)" rule: task_step.cases)
    (auto split: option.splits)

lemma feed_stage:
  "fst (feed dryRun tot u m inps (st, p, es)) = fst (feed dryRun tot u m inps (st, p', es'))"
proof (induction inps arbitrary: st p es p' es')
  case Nil
  then show ?case by simp
next
  case (Cons inp inps)
  obtain st1 p1 es1 where a: "task_step dryRun tot u m p st inp = (st1, p1, es1)"
    by (cases "task_step dryRun tot u m p st inp")
  obtain st2 p2 es2 where b: "task_step dryRun tot u m p' st inp = (st2, p2, es2)"
    by (cases "task_step dryRun tot u m p' st inp")
  have "st1 = st2" using task_step_stage [of dryRun tot u m p st inp p'] a b by simp
  with a b Cons.IH [of st1 p1 "es @ es1" p2 "es' @ es2"] show ?case by simp
qed


lemma step_addressed:
  assumes "step a (r, w) = (r', w')"
  shows "map addressed (tasks r') = map addressed (tasks r)"
proof -
  obtain i inp where a: "a = (i, inp)" by (cases a)
  show ?thesis
  proof (cases "i < length (tasks r)")
    case False
    with assms a show ?thesis by (simp add: step_outside)
  next
    case True
    obtain st p es where ts: "task_step (dry_run r) (total_count r) (recipient (tasks r ! i))
           (personalizedMessage (tasks r ! i)) (processed r) (stage (tasks r ! i)) inp = (st, p, es)"
      by (cases "task_step (dry_run r) (total_count r) (recipient (tasks r ! i))
           (personalizedMessage (tasks r ! i)) (processed r) (stage (tasks r ! i)) inp")
    from step_inside [OF True ts, of w] assms a
    have r': "tasks r' = (tasks r)[i := (tasks r ! i)\<lparr>stage := st\<rparr>]"
      by auto
    show ?thesis
      using True by (simp add: r' map_update list_update_same_conv)
  qed
qed

lemma exec_addressed:
  "exec sched (r, w) = (r', w') \<Longrightarrow> map addressed (tasks r') = map addressed (tasks r)"
proof (induction sched arbitrary: r w)
  case Nil
  then show ?case by simp
next
  case (Cons a sched)
  obtain r1 w1 where one: "step a (r, w) = (r1, w1)" by (cases "step a (r, w)")
  from Cons.prems one have "exec sched (r1, w1) = (r', w')" by simp
  from Cons.IH [OF this] step_addressed [OF one] show ?case by simp
qed

lemma admitted_nothing:
  assumes "\<forall>t \<in> set ts. stage t = Admitted"
  shows "filter (\<lambda>t. stage t = Completed) ts = []" and "calls_issued ts = {#}"
  using assms by (auto simp: calls_issued_def filter_empty_conv)

lemma admit_tasks:
  "map recipient (snd (admit template us)) = takeWhile (\<lambda>u. \<not> isl (template u)) us
   \<and> (\<forall>t \<in> set (snd (admit template us)). template (recipient t) = Inr (personalizedMessage t))"
  by (induction us) (auto split: sum.splits prod.splits)

lemma admit_returns:
  "fst (admit template us) = None \<longleftrightarrow> (\<forall>u \<in> set us. \<not> isl (template u))"
  by (induction us) (auto split: sum.splits prod.splits)

lemma exec_from_admitted:
  assumes fresh: "\<forall>t \<in> set (tasks r0). stage t = Admitted"
    and zero: "processed r0 = 0"
    and run: "exec sched (r0, w0) = (r, w)"
  shows "processed r = length (filter (\<lambda>t. stage t = Completed) (tasks r))"
    and "\<not> dry_run r0 \<Longrightarrow> mset (sends (trace w)) = mset (sends (trace w0)) + calls_issued (tasks r)"
    and "\<not> dry_run r0 \<Longrightarrow> simulated (trace w) = simulated (trace w0)"
    and "dry_run r0 \<Longrightarrow> sends (trace w) = sends (trace w0) \<and> sleeps (trace w) = sleeps (trace w0)"
    and "dry_run r0 \<Longrightarrow> \<forall>t \<in> set (tasks r). stage t = Admitted \<or> stage t = Completed"
    and "dry_run r0 \<Longrightarrow> mset (simulated (trace w)) =
            mset (simulated (trace w0)) + mset (map addressed (filter (\<lambda>t. stage t = Completed) (tasks r)))"
    and "\<not> dry_run r0 \<Longrightarrow> answers_follow v sched \<Longrightarrow>
            \<forall>i < length (tasks r). settled (stage (tasks r ! i)) \<longrightarrow> stage (tasks r ! i) = ends_at (v i)"
proof -
  note none = admitted_nothing [OF fresh]
  from exec_processed [OF run] none(1) zero
  show "processed r = length (filter (\<lambda>t. stage t = Completed) (tasks r))"
    by auto
  show "mset (sends (trace w)) = mset (sends (trace w0)) + calls_issued (tasks r)" if "\<not> dry_run r0"
    using exec_live_sends [OF that run] none(2) by auto
  show "simulated (trace w) = simulated (trace w0)" if "\<not> dry_run r0"
    using exec_live_sends [OF that run] by simp
  have fresh': "\<forall>t \<in> set (tasks r0). stage t = Admitted \<or> stage t = Completed"
    using fresh by simp
  show "sends (trace w) = sends (trace w0) \<and> sleeps (trace w) = sleeps (trace w0)" if "dry_run r0"
    using exec_dry [OF that fresh' run] by simp
  show "\<forall>t \<in> set (tasks r). stage t = Admitted \<or> stage t = Completed" if "dry_run r0"
    using exec_dry [OF that fresh' run] by simp
  show "mset (simulated (trace w)) =
            mset (simulated (trace w0)) + mset (map addressed (filter (\<lambda>t. stage t = Completed) (tasks r)))"
    if "dry_run r0"
    using exec_dry [OF that fresh' run] none(1) by auto
  show "\<forall>i < length (tasks r). settled (stage (tasks r ! i)) \<longrightarrow> stage (tasks r ! i) = ends_at (v i)"
    if live: "\<not> dry_run r0" and follow: "answers_follow v sched"
  proof -
    have start: "\<forall>i < length (tasks r0).
           (settled (stage (tasks r0 ! i)) \<longrightarrow> stage (tasks r0 ! i) = ends_at (v i))
         \<and> (stage (tasks r0 ! i) = AwaitingTimer \<or> stage (tasks r0 ! i) = AwaitingRetry
              \<longrightarrow> (\<exists>err. v i = Inl err \<and> throttled err))"
      using fresh by simp
    from exec_verdict [OF live follow start run] show ?thesis by blast
  qed
qed

lemma step_pairs:
  assumes "step a (r, w) = (r', w')"
  shows "map (\<lambda>t. (recipient t, personalizedMessage t)) (tasks r')
       = map (\<lambda>t. (recipient t, personalizedMessage t)) (tasks r)"
proof -
  obtain i inp where a: "a = (i, inp)" by (cases a)
  show ?thesis
  proof (cases "i < length (tasks r)")
    case False
    with assms a show ?thesis by (simp add: step_outside)
  next
    case True
    obtain st p es where ts: "task_step (dry_run r) (total_count r) (recipient (tasks r ! i))
           (personalizedMessage (tasks r ! i)) (processed r) (stage (tasks r ! i)) inp = (st, p, es)"
      by (cases "task_step (dry_run r) (total_count r) (recipient (tasks r ! i))
           (personalizedMessage (tasks r ! i)) (processed r) (stage (tasks r ! i)) inp")
    from step_inside [OF True ts, of w] assms a
    have r': "tasks r' = (tasks r)[i := (tasks r ! i)\<lparr>stage := st\<rparr>]"
      by auto
    show ?thesis
      using True by (simp add: r' map_update list_update_same_conv)
  qed
qed

lemma exec_pairs:
  "exec sched (r, w) = (r', w') \<Longrightarrow>
     map (\<lambda>t. (recipient t, personalizedMessage t)) (tasks r')
       = map (\<lambda>t. (recipient t, personalizedMessage t)) (tasks r)"
proof (induction sched arbitrary: r w)
  case Nil
  then show ?case by simp
next
  case (Cons a sched)
  obtain r1 w1 where one: "step a (r, w) = (r1, w1)" by (cases "step a (r, w)")
  from Cons.prems one have "exec sched (r1, w1) = (r', w')" by simp
  from Cons.IH [OF this] step_pairs [OF one] show ?case by simp
qed

lemma exec_rendered:
  assumes run: "exec sched (r, w) = (r', w')"
    and init: "\<forall>t \<in> set (tasks r). template (recipient t) = Inr (personalizedMessage t)"
  shows "\<forall>t \<in> set (tasks r'). template (recipient t) = Inr (personalizedMessage t)"
proof
  fix t assume "t \<in> set (tasks r')"
  then have "(recipient t, personalizedMessage t)
      \<in> set (map (\<lambda>t. (recipient t, personalizedMessage t)) (tasks r'))"
    by force
  then have "(recipient t, personalizedMessage t)
      \<in> set (map (\<lambda>t. (recipient t, personalizedMessage t)) (tasks r))"
    by (simp only: exec_pairs [OF run])
  then obtain t0 where "t0 \<in> set (tasks r)" "recipient t0 = recipient t"
    "personalizedMessage t0 = personalizedMessage t"
    by auto
  with init show "template (recipient t) = Inr (personalizedMessage t)" by metis
qed

lemma admit_addressed:
  "\<forall>u \<in> set us. \<not> isl (template u) \<Longrightarrow>
     map addressed (snd (admit template us)) = map (\<lambda>u. (user_id u, projr (template u))) us"
  by (induction us) (auto simp: addressed_def split: sum.splits prod.splits)

lemma started_or_not:
  assumes "\<forall>t \<in> set ts. stage t = Admitted \<or> stage t = Completed"
  shows "filter (\<lambda>t. stage t = Completed) ts = filter (\<lambda>t. stage t \<noteq> Admitted) ts"
  using assms by (auto intro: filter_cong)

















subsection \<open>The recipient filter\<close>

text \<open>
  C1. For every member list \<open>M\<close>, with \<open>A\<close> the allow list and \<open>B\<close> the block list as
  loaded, \<open>filterUsers\<close> returns the members of \<open>M\<close> that pass the allow gate (all of
  them when \<open>A\<close> is empty, otherwise those whose id, as a string, is in \<open>A\<close>) with every
  member whose id is in \<open>B\<close> removed; an id in both \<open>A\<close> and \<open>B\<close> is not the id of any
  member of the result.
\<close>

theorem filterUsers_allow_then_block:
  assumes "loadAllowlist st = (A, stA)" and "loadBlocklist st = (B, stB)"
  shows "fst (filterUsers M st) =
           filter (\<lambda>u. String_of (user_id u) \<notin> set B)
             (filter (\<lambda>u. A = [] \<or> String_of (user_id u) \<in> set A) M)
         \<and> (\<forall>i. i \<in> set A \<and> i \<in> set B \<longrightarrow>
               i \<notin> (\<lambda>u. String_of (user_id u)) ` set (fst (filterUsers M st)))"
  using assms filterUsers_fst [of M st] by auto

theorem filterUsers_allow_then_block_witness:
  "fst (filterUsers [member_of 1, member_of 2, member_of 5, member_of 7] both_lists)
     = [member_of 1, member_of 2]
   \<and> ''5'' \<notin> (\<lambda>u. String_of (user_id u)) `
        set (fst (filterUsers [member_of 1, member_of 2, member_of 5, member_of 7] both_lists))"
  using filterUsers_allow_then_block [of both_lists "[''1'', ''2'', ''5'']"
      "both_lists\<lparr>allowlistCache := Some [''1'', ''2'', ''5''], allowlistLastModified := 4\<rparr>"
      "[''5'']" "both_lists\<lparr>blocklistCache := Some [''5''], blocklistLastModified := 3\<rparr>"
      "[member_of 1, member_of 2, member_of 5, member_of 7]"]
  by (simp add: both_lists_def loadAllowlist_def loadBlocklist_def member_of_def
      String_of_def digits.simps)

text \<open>
  C9. Filtering with an empty allow list and an empty block list gives back the member
  list unchanged.
\<close>

theorem filterUsers_identity:
  assumes "loadAllowlist st = ([], stA)" and "loadBlocklist st = ([], stB)"
  shows "fst (filterUsers M st) = M"
  using assms filterUsers_fst [of M st] by simp

theorem filterUsers_identity_witness:
  "fst (filterUsers [member_of 1, member_of 5, member_of 5] no_lists)
     = [member_of 1, member_of 5, member_of 5]"
  using filterUsers_identity [of no_lists
      "no_lists\<lparr>allowlistCache := Some [], allowlistLastModified := 0\<rparr>"
      "no_lists\<lparr>blocklistCache := Some [], blocklistLastModified := 0\<rparr>"
      "[member_of 1, member_of 5, member_of 5]"]
  by (simp add: no_lists_def loadAllowlist_def loadBlocklist_def)

subsection \<open>The member enumerator\<close>

text \<open>
  C2. When the first page request succeeds and reports the total \<open>count data\<close>, and the
  page requests of the run succeed, the enumerator issues exactly
  \<open>pages_needed (count data)\<close> requests, at the offsets 0, 1000, 2000 and so on, each
  with page size 1000; it returns the items of all these pages in order, whatever
  totals the later pages report; the number of requests is the first at which the
  offset has reached the total captured from the first page. With a first total of
  2500 the offsets requested are 0, 1000 and 2000. (A page request that fails ends the
  enumeration with that error.)
\<close>

theorem gatherUserIds_pagination:
  assumes first: "groups_getMembers env (net w) \<lparr>group_id = gid, offset = 0, count_param = 1000\<rparr>
                    = (Inr data, n)"
    and ok: "list_all succeeded (answers env (net w) (page_requests gid 0 (pages_needed (count data))))"
  shows "\<exists>w'. gatherUserIds env gid w =
            Some (if write_peer_list_ok env
                  then Inr (concat (map page_items
                         (answers env (net w) (page_requests gid 0 (pages_needed (count data))))))
                  else Inl (FailedToGatherUserIds WriteFileFailure), w')
          \<and> requests_of (trace w') =
              requests_of (trace w) @ page_requests gid 0 (pages_needed (count data))
          \<and> map offset (page_requests gid 0 (pages_needed (count data)))
              = map (\<lambda>j. 1000 * int j) [0..<pages_needed (count data)]
          \<and> map count_param (page_requests gid 0 (pages_needed (count data)))
              = replicate (pages_needed (count data)) 1000
          \<and> count data \<le> 1000 * int (pages_needed (count data))
          \<and> (\<forall>k. 1 \<le> k \<and> k < pages_needed (count data) \<longrightarrow> 1000 * int k < count data)
          \<and> (count data = 2500 \<longrightarrow>
                map offset (page_requests gid 0 (pages_needed (count data))) = [0, 1000, 2000])"
proof -
  let ?req = "\<lparr>group_id = gid, offset = 0, count_param = 1000\<rparr>"
  let ?P = "pages_needed (count data)"
  let ?w = "emit (Console (Gathered (length (items data)) (count data)))
              (emit (ApiGetMembers ?req) w\<lparr>net := n\<rparr>)"
  obtain k where P: "?P = Suc k"
    using pages_needed_pos [of "count data"] by (cases ?P) simp_all
  have rest: "list_all succeeded (answers env (net ?w) (page_requests gid 1000 k))"
    using ok first by (simp add: P)
  from fetch_pages_answers [OF rest, of "count data" "items data"]
  obtain w1 where f: "fetch_pages env gid (count data) k (items data) 1000 ?w =
        (Inr (items data @ concat (map page_items (answers env (net ?w) (page_requests gid 1000 k)))), w1)"
    and t: "requests_of (trace w1) = requests_of (trace ?w) @ page_requests gid 1000 k"
    by blast
  have run: "gatherUserIds env gid w =
      Some (if write_peer_list_ok env
            then Inr (concat (map page_items (answers env (net w) (page_requests gid 0 ?P))))
            else Inl (FailedToGatherUserIds WriteFileFailure),
            if write_peer_list_ok env
            then w1\<lparr>peer_list := Some (concat (map page_items (answers env (net w) (page_requests gid 0 ?P))))\<rparr>
            else w1)"
    using first f by (simp add: gatherUserIds_def gather_loop_first P)
  have tr: "requests_of (trace (if write_peer_list_ok env
            then w1\<lparr>peer_list := Some (concat (map page_items (answers env (net w) (page_requests gid 0 ?P))))\<rparr>
            else w1)) = requests_of (trace w) @ page_requests gid 0 ?P"
    using t by (simp add: P)
  have offs: "map offset (page_requests gid 0 ?P) = map (\<lambda>j. 1000 * int j) [0..<?P]"
    using page_requests_offsets [of gid 0 ?P] by simp
  have special: "count data = 2500 \<longrightarrow> map offset (page_requests gid 0 ?P) = [0, 1000, 2000]"
  proof
    assume "count data = 2500"
    then have "?P = Suc (Suc (Suc 0))" by (simp add: pages_needed_def)
    then show "map offset (page_requests gid 0 ?P) = [0, 1000, 2000]" by simp
  qed
  have reach: "count data \<le> 1000 * int ?P"
    by (rule pages_needed_reaches)
  have least: "\<forall>k. 1 \<le> k \<and> k < ?P \<longrightarrow> 1000 * int k < count data"
    using pages_needed_least [of _ "count data"] by blast
  have size: "map count_param (page_requests gid 0 ?P) = replicate ?P 1000"
    using page_requests_size [of gid 0 ?P] by simp
  show ?thesis
    apply (rule exI)
    apply (intro conjI)
          apply (rule run)
         apply (rule tr)
        apply (rule offs)
       apply (rule size)
      apply (rule reach)
     apply (rule least)
    apply (rule special)
    done
qed

theorem gatherUserIds_pagination_witness:
  "\<exists>w'. gatherUserIds counting_env ''club'' (fresh_world no_lists) =
           Some (Inr [member_of 0, member_of 1000, member_of 2000], w')
        \<and> requests_of (trace w') =
            [\<lparr>group_id = ''club'', offset = 0, count_param = 1000\<rparr>,
             \<lparr>group_id = ''club'', offset = 1000, count_param = 1000\<rparr>,
             \<lparr>group_id = ''club'', offset = 2000, count_param = 1000\<rparr>]"
  using gatherUserIds_pagination [of counting_env "fresh_world no_lists" "''club''"
      "\<lparr>count = 2500, items = [member_of 0]\<rparr>" "Suc 0"]
  by (simp add: counting_env_def fresh_world_def pages_needed_def eval_nat_numeral)

text \<open>
  C8. Member enumeration always returns, whatever the service answers and however few
  items its pages hold: when the first page reports a total, at most
  \<open>pages_needed\<close> of that total requests are made, since each one moves the offset
  on by 1000.
\<close>

theorem gatherUserIds_terminates:
  "\<exists>r w'. gatherUserIds env gid w = Some (r, w') \<and>
     (\<forall>data n. groups_getMembers env (net w) \<lparr>group_id = gid, offset = 0, count_param = 1000\<rparr>
                  = (Inr data, n) \<longrightarrow>
        length (requests_of (trace w')) \<le> length (requests_of (trace w)) + pages_needed (count data))"
proof -
  let ?req = "\<lparr>group_id = gid, offset = 0, count_param = 1000\<rparr>"
  obtain a n where call: "groups_getMembers env (net w) ?req = (a, n)"
    by (cases "groups_getMembers env (net w) ?req")
  show ?thesis
  proof (cases a)
    case (Inl err)
    with call show ?thesis
      by (simp add: gatherUserIds_def gather_loop_first)
  next
    case (Inr data)
    let ?w = "emit (Console (Gathered (length (items data)) (count data)))
                (emit (ApiGetMembers ?req) w\<lparr>net := n\<rparr>)"
    let ?k = "pages_needed (count data) - 1"
    obtain r w1 where f: "fetch_pages env gid (count data) ?k (items data) 1000 ?w = (r, w1)"
      by (cases "fetch_pages env gid (count data) ?k (items data) 1000 ?w")
    have "length (requests_of (trace w1)) \<le> length (requests_of (trace ?w)) + ?k"
      using fetch_pages_requests [of env gid "count data" ?k "items data" 1000 ?w] f by simp
    then have len: "length (requests_of (trace w1))
        \<le> length (requests_of (trace w)) + pages_needed (count data)"
      using pages_needed_pos [of "count data"] by simp
    from call Inr f len show ?thesis
      by (cases r) (simp_all add: gatherUserIds_def gather_loop_first)
  qed
qed

theorem gatherUserIds_terminates_witness:
  "\<exists>r w'. gatherUserIds counting_env ''club'' (fresh_world no_lists) = Some (r, w') \<and>
     length (requests_of (trace w')) \<le> 3"
  using gatherUserIds_terminates [of counting_env "''club''" "fresh_world no_lists"]
  by (simp add: counting_env_def fresh_world_def pages_needed_def)

subsection \<open>The task of one recipient\<close>




subsection \<open>The broadcast runner\<close>

text \<open>
  C6, amended. In a dry run, whatever the schedule and the template, no
  \<^verbatim>\<open>messages.send\<close> call is made, no retry timer is set and the service is left
  untouched. Tasks are admitted for the filtered recipients, in order, up to the first
  one for which the template function throws, each with the rendered text; one simulated
  send is written for each task that has started. The call throws exactly when the
  template function throws for a filtered recipient; it returns exactly when the
  template function throws for none and every task has started, and then one simulated
  send has been written for each filtered recipient.
\<close>

theorem broadcast_dry_run:
  assumes run: "broadcast env sched T users True w = (res, r, w')"
  shows "sends (trace w') = sends (trace w)
     \<and> sleeps (trace w') = sleeps (trace w)
     \<and> net w' = net w
     \<and> map recipient (tasks r) =
         takeWhile (\<lambda>u. \<not> isl (personalize env T u)) (fst (filterUsers users (store w)))
     \<and> (\<forall>t \<in> set (tasks r). personalize env T (recipient t) = Inr (personalizedMessage t))
     \<and> mset (simulated (trace w')) = mset (simulated (trace w))
         + mset (map addressed (filter (\<lambda>t. stage t \<noteq> Admitted) (tasks r)))
     \<and> ((\<exists>e. res = Threw e)
          = (\<exists>u \<in> set (fst (filterUsers users (store w))). isl (personalize env T u)))
     \<and> ((res = Returned)
          = ((\<forall>u \<in> set (fst (filterUsers users (store w))). \<not> isl (personalize env T u))
             \<and> (\<forall>t \<in> set (tasks r). stage t \<noteq> Admitted)))
     \<and> (res = Returned \<longrightarrow>
         mset (simulated (trace w')) = mset (simulated (trace w))
           + mset (map (\<lambda>u. (user_id u, projr (personalize env T u)))
                    (fst (filterUsers users (store w)))))"
proof -
  define F where "F = fst (filterUsers users (store w))"
  define r0 where "r0 = \<lparr>dry_run = True, total_count = length F, processed = 0,
                         tasks = snd (admit (personalize env T) F)\<rparr>"
  define w0 where "w0 = report_filtering users F (w\<lparr>store := snd (filterUsers users (store w))\<rparr>)"
  from broadcast_run [OF run]
  have ex: "exec sched (r0, w0) = (r, w')"
    and res: "res = ending_of (fst (admit (personalize env T) F)) (tasks r)"
    by (simp_all add: F_def r0_def w0_def)
  have fresh: "\<forall>t \<in> set (tasks r0). stage t = Admitted"
    by (simp add: r0_def admit_fresh)
  have zero: "processed r0 = 0" and dry: "dry_run r0"
    by (simp_all add: r0_def)
  note fr = exec_frame [OF ex]
  note quiet = exec_from_admitted(4) [OF fresh zero ex dry]
  note stages = exec_from_admitted(5) [OF fresh zero ex dry]
  note sim = exec_from_admitted(6) [OF fresh zero ex dry]
  have w0: "sends (trace w0) = sends (trace w)" "sleeps (trace w0) = sleeps (trace w)"
    "simulated (trace w0) = simulated (trace w)" "net w0 = net w"
    by (simp_all add: w0_def report_filtering_effects)
  have c1: "sends (trace w') = sends (trace w)" using quiet w0 by simp
  have c2: "sleeps (trace w') = sleeps (trace w)" using quiet w0 by simp
  have c3: "net w' = net w" using fr w0 by simp
  have c4: "map recipient (tasks r) = takeWhile (\<lambda>u. \<not> isl (personalize env T u)) F"
    using fr admit_tasks [of "personalize env T" F] by (simp add: r0_def)
  have "\<forall>t \<in> set (tasks r0). personalize env T (recipient t) = Inr (personalizedMessage t)"
    using admit_tasks [of "personalize env T" F] by (simp add: r0_def)
  from exec_rendered [OF ex this]
  have c5: "\<forall>t \<in> set (tasks r). personalize env T (recipient t) = Inr (personalizedMessage t)" .
  have c6: "mset (simulated (trace w')) = mset (simulated (trace w))
         + mset (map addressed (filter (\<lambda>t. stage t \<noteq> Admitted) (tasks r)))"
    using sim w0 by (simp only: started_or_not [OF stages])
  have none: "(fst (admit (personalize env T) F) = None) = (\<forall>u \<in> set F. \<not> isl (personalize env T u))"
    by (rule admit_returns)
  have c7: "(\<exists>e. res = Threw e) = (\<exists>u \<in> set F. isl (personalize env T u))"
    using none by (auto simp: res ending_of_Threw)
  have ends: "(settled (stage t) \<and> \<not> rejected (stage t)) = (stage t \<noteq> Admitted)"
    if "t \<in> set (tasks r)" for t
    using stages that by auto
  have c8: "(res = Returned)
          = ((\<forall>u \<in> set F. \<not> isl (personalize env T u)) \<and> (\<forall>t \<in> set (tasks r). stage t \<noteq> Admitted))"
    using none ends by (auto simp: res ending_of_Returned)
  have c9: "mset (simulated (trace w')) = mset (simulated (trace w))
           + mset (map (\<lambda>u. (user_id u, projr (personalize env T u))) F)"
    if ret: "res = Returned"
  proof -
    from ret c8 have ok: "\<forall>u \<in> set F. \<not> isl (personalize env T u)"
      and started: "\<forall>t \<in> set (tasks r). stage t \<noteq> Admitted"
      by simp_all
    from started have "filter (\<lambda>t. stage t \<noteq> Admitted) (tasks r) = tasks r"
      by simp
    moreover have "map addressed (tasks r) = map (\<lambda>u. (user_id u, projr (personalize env T u))) F"
      using exec_addressed [OF ex] admit_addressed [OF ok] by (simp add: r0_def)
    ultimately show ?thesis using c6 by simp
  qed
  show ?thesis
    unfolding F_def [symmetric]
    apply (intro conjI impI)
            apply (rule c1)
           apply (rule c2)
          apply (rule c3)
         apply (rule c4)
        apply (rule c5)
       apply (rule c6)
      apply (rule c7)
     apply (rule c8)
    apply (rule c9)
    apply assumption
    done
qed

theorem broadcast_dry_run_witness:
  "fst (broadcast counting_env [(1, Start), (0, Start), (0, Wake)] ''Hello''
          [member_of 1, member_of 2, member_of 5, member_of 7] True (fresh_world both_lists))
        = Returned
   \<and> map stage (tasks (fst (snd (broadcast counting_env [(1, Start), (0, Start), (0, Wake)] ''Hello''
          [member_of 1, member_of 2, member_of 5, member_of 7] True (fresh_world both_lists)))))
        = [Completed, Completed]
   \<and> simulated (trace (snd (snd (broadcast counting_env [(1, Start), (0, Start), (0, Wake)] ''Hello''
          [member_of 1, member_of 2, member_of 5, member_of 7] True (fresh_world both_lists)))))
        = [(2, ''Hello Ann''), (1, ''Hello Ann'')]
   \<and> sends (trace (snd (snd (broadcast counting_env [(1, Start), (0, Start), (0, Wake)] ''Hello''
          [member_of 1, member_of 2, member_of 5, member_of 7] True (fresh_world both_lists))))) = []
   \<and> sleeps (trace (snd (snd (broadcast counting_env [(1, Start), (0, Start), (0, Wake)] ''Hello''
          [member_of 1, member_of 2, member_of 5, member_of 7] True (fresh_world both_lists))))) = []"
  using broadcast_dry_run [of counting_env "[(1, Start), (0, Start), (0, Wake)]" "''Hello''"
      "[member_of 1, member_of 2, member_of 5, member_of 7]" "fresh_world both_lists"
      "fst (broadcast counting_env [(1, Start), (0, Start), (0, Wake)] ''Hello''
          [member_of 1, member_of 2, member_of 5, member_of 7] True (fresh_world both_lists))"
      "fst (snd (broadcast counting_env [(1, Start), (0, Start), (0, Wake)] ''Hello''
          [member_of 1, member_of 2, member_of 5, member_of 7] True (fresh_world both_lists)))"
      "snd (snd (broadcast counting_env [(1, Start), (0, Start), (0, Wake)] ''Hello''
          [member_of 1, member_of 2, member_of 5, member_of 7] True (fresh_world both_lists)))"]
  by (simp add: broadcast_unfold filterUsers_fst fresh_world_def both_lists_def loadAllowlist_def
      loadBlocklist_def member_of_def String_of_def digits.simps counting_env_def
      personalize_def report_filtering_effects Let_def step_def ending_of_def
      progress_line_def emit_def split: prod.splits)

text \<open>
  C6 as the specification words it fails when the template function throws: the
  template engine parses the template at the first call of the template function (line
  281), inside the loop and before any task is handed to the queue. Two members pass the
  filter, the dry run throws, no task exists whatever the schedule starts, and no
  simulated send is written.
\<close>

theorem unparsable_template_counterexample:
  "map user_id (fst (filterUsers [member_of 1, member_of 7] (store (fresh_world no_lists)))) = [1, 7]
   \<and> fst (broadcast unparsable_env [(0, Start), (1, Start)] ''Hello {{first_name''
          [member_of 1, member_of 7] True (fresh_world no_lists))
        = Threw (TemplateFailure ''Parse error'')
   \<and> tasks (fst (snd (broadcast unparsable_env [(0, Start), (1, Start)] ''Hello {{first_name''
          [member_of 1, member_of 7] True (fresh_world no_lists)))) = []
   \<and> simulated (trace (snd (snd (broadcast unparsable_env [(0, Start), (1, Start)]
          ''Hello {{first_name'' [member_of 1, member_of 7] True (fresh_world no_lists))))) = []"
  by (simp add: broadcast_unfold filterUsers_fst fresh_world_def no_lists_def loadAllowlist_def
      loadBlocklist_def member_of_def String_of_def digits.simps counting_env_def unparsable_env_def
      personalize_def report_filtering_effects Let_def step_def ending_of_def
      progress_line_def emit_def split: prod.splits)




subsection \<open>The command \<^verbatim>\<open>/broadcast\<close>\<close>

text \<open>
  C7. When the template file cannot be read, or is empty once trimmed, the command
  ends without admitting a send task: no \<^verbatim>\<open>messages.send\<close> call, no simulated send
  and no retry wait is made. Its last reply is never the completion message; for an
  administrator whose member enumeration succeeded it is the message that the file could
  not be read, respectively that it is empty.
\<close>

theorem broadcast_command_template_failure:
  assumes "read_template env = None
           \<or> (\<exists>content. read_template env = Some content \<and> trim content = [])"
  shows "\<exists>w' r. broadcast_command env sched from_id w = Some w'
          \<and> sends (trace w') = sends (trace w)
          \<and> simulated (trace w') = simulated (trace w)
          \<and> sleeps (trace w') = sleeps (trace w)
          \<and> replies (trace w') = replies (trace w) @
               (if isAdmin env from_id then [UpdatingRecipientList, r] else [r])
          \<and> r \<noteq> BroadcastComplete
          \<and> (isAdmin env from_id \<and>
               (\<exists>users w1. gatherUserIds env (GROUP_ID env) (emit (Reply UpdatingRecipientList) w)
                              = Some (Inr users, w1)) \<longrightarrow>
               r = (if read_template env = None then CouldNotReadTemplate else TemplateFileEmpty))"
proof (cases "isAdmin env from_id")
  case False
  then show ?thesis
    by (simp add: broadcast_command_def)
next
  case True
  let ?w0 = "emit (Reply UpdatingRecipientList) w"
  obtain g w1 where gather: "gatherUserIds env (GROUP_ID env) ?w0 = Some (g, w1)"
    using gatherUserIds_returns [of env "GROUP_ID env" ?w0] by blast
  note eff = gatherUserIds_effects [OF gather]
  show ?thesis
  proof (cases g)
    case (Inl err)
    with True gather eff show ?thesis
      by (simp add: broadcast_command_def)
  next
    case (Inr users)
    with True gather eff assms show ?thesis
      by (auto simp: broadcast_command_def Let_def split: prod.splits)
  qed
qed

theorem broadcast_command_template_failure_witness:
  "\<exists>w'. broadcast_command blank_template_env (all_started 3) 1 (fresh_world no_lists) = Some w'
       \<and> sends (trace w') = [] \<and> simulated (trace w') = [] \<and> sleeps (trace w') = []
       \<and> replies (trace w') = [UpdatingRecipientList, TemplateFileEmpty]"
proof -
  have h: "read_template blank_template_env = None
      \<or> (\<exists>content. read_template blank_template_env = Some content \<and> trim content = [])"
    by (simp add: blank_template_env_def trim_def isWhiteSpace_def)
  have adm: "isAdmin blank_template_env 1"
    by (simp add: isAdmin_def blank_template_env_def counting_env_def)
  have gid: "GROUP_ID blank_template_env = ''club''"
    by (simp add: blank_template_env_def counting_env_def)
  have rt: "read_template blank_template_env \<noteq> None"
    by (simp add: blank_template_env_def)
  have tr: "trace (fresh_world no_lists) = []"
    by (simp add: fresh_world_def)
  from broadcast_command_template_failure [OF h, of "all_started 3" 1 "fresh_world no_lists"]
  show ?thesis
    by (auto simp: adm gid gather_demo rt tr)
qed

subsection \<open>Adding to the lists\<close>

text \<open>
  C10, amended. \<^verbatim>\<open>addToBlocklist\<close> and \<^verbatim>\<open>addToAllowlist\<close> throw
  \<^verbatim>\<open>Invalid user ID format\<close> exactly when \<^verbatim>\<open>Number(userId)\<close> is not a positive
  integer, and then nothing of the stored state changes. For a valid id that is not in
  the loaded list they append it, write the file and return true when the write
  succeeds, and throw \<^verbatim>\<open>Failed to save\<close> with the file unchanged when it does not. For a
  valid id that is in the list they return false, and file and list stay as they are.
\<close>

theorem add_to_list_outcomes:
  "(isValidUserId Number userId \<longleftrightarrow> (\<exists>k::int. 0 < k \<and> Number userId = Finite (of_int k)))
   \<and> (case addToBlocklist Number env userId st of (res, st') \<Rightarrow>
      (res = Inl InvalidUserIdFormat \<longleftrightarrow> \<not> isValidUserId Number userId)
    \<and> (\<not> isValidUserId Number userId \<longrightarrow> st' = st)
    \<and> (isValidUserId Number userId \<and> userId \<notin> set (fst (loadBlocklist st)) \<and> write_ok env \<longrightarrow>
          res = Inr True
        \<and> blocklist_file st' = Present (write_mtime env) (StrArray (fst (loadBlocklist st) @ [userId]))
        \<and> fst (loadBlocklist st') = fst (loadBlocklist st) @ [userId])
    \<and> (isValidUserId Number userId \<and> userId \<notin> set (fst (loadBlocklist st)) \<and> \<not> write_ok env \<longrightarrow>
          res = Inl FailedToSaveBlocklist \<and> blocklist_file st' = blocklist_file st)
    \<and> (isValidUserId Number userId \<and> userId \<in> set (fst (loadBlocklist st)) \<longrightarrow>
          res = Inr False \<and> blocklist_file st' = blocklist_file st
        \<and> fst (loadBlocklist st') = fst (loadBlocklist st)))
   \<and> (case addToAllowlist Number env userId st of (res, st') \<Rightarrow>
      (res = Inl InvalidUserIdFormat \<longleftrightarrow> \<not> isValidUserId Number userId)
    \<and> (\<not> isValidUserId Number userId \<longrightarrow> st' = st)
    \<and> (isValidUserId Number userId \<and> userId \<notin> set (fst (loadAllowlist st)) \<and> write_ok env \<longrightarrow>
          res = Inr True
        \<and> allowlist_file st' = Present (write_mtime env) (StrArray (fst (loadAllowlist st) @ [userId]))
        \<and> fst (loadAllowlist st') = fst (loadAllowlist st) @ [userId])
    \<and> (isValidUserId Number userId \<and> userId \<notin> set (fst (loadAllowlist st)) \<and> \<not> write_ok env \<longrightarrow>
          res = Inl FailedToSaveAllowlist \<and> allowlist_file st' = allowlist_file st)
    \<and> (isValidUserId Number userId \<and> userId \<in> set (fst (loadAllowlist st)) \<longrightarrow>
          res = Inr False \<and> allowlist_file st' = allowlist_file st
        \<and> fst (loadAllowlist st') = fst (loadAllowlist st)))"
proof (intro conjI)
  show "isValidUserId Number userId
          \<longleftrightarrow> (\<exists>k::int. 0 < k \<and> Number userId = Finite (of_int k))"
    by (rule isValidUserId_iff)
next
  show "case addToBlocklist Number env userId st of (res, st') \<Rightarrow>
      (res = Inl InvalidUserIdFormat \<longleftrightarrow> \<not> isValidUserId Number userId)
    \<and> (\<not> isValidUserId Number userId \<longrightarrow> st' = st)
    \<and> (isValidUserId Number userId \<and> userId \<notin> set (fst (loadBlocklist st)) \<and> write_ok env \<longrightarrow>
          res = Inr True
        \<and> blocklist_file st' = Present (write_mtime env) (StrArray (fst (loadBlocklist st) @ [userId]))
        \<and> fst (loadBlocklist st') = fst (loadBlocklist st) @ [userId])
    \<and> (isValidUserId Number userId \<and> userId \<notin> set (fst (loadBlocklist st)) \<and> \<not> write_ok env \<longrightarrow>
          res = Inl FailedToSaveBlocklist \<and> blocklist_file st' = blocklist_file st)
    \<and> (isValidUserId Number userId \<and> userId \<in> set (fst (loadBlocklist st)) \<longrightarrow>
          res = Inr False \<and> blocklist_file st' = blocklist_file st
        \<and> fst (loadBlocklist st') = fst (loadBlocklist st))"
    by (rule addToBlocklist_outcomes)
next
  show "case addToAllowlist Number env userId st of (res, st') \<Rightarrow>
      (res = Inl InvalidUserIdFormat \<longleftrightarrow> \<not> isValidUserId Number userId)
    \<and> (\<not> isValidUserId Number userId \<longrightarrow> st' = st)
    \<and> (isValidUserId Number userId \<and> userId \<notin> set (fst (loadAllowlist st)) \<and> write_ok env \<longrightarrow>
          res = Inr True
        \<and> allowlist_file st' = Present (write_mtime env) (StrArray (fst (loadAllowlist st) @ [userId]))
        \<and> fst (loadAllowlist st') = fst (loadAllowlist st) @ [userId])
    \<and> (isValidUserId Number userId \<and> userId \<notin> set (fst (loadAllowlist st)) \<and> \<not> write_ok env \<longrightarrow>
          res = Inl FailedToSaveAllowlist \<and> allowlist_file st' = allowlist_file st)
    \<and> (isValidUserId Number userId \<and> userId \<in> set (fst (loadAllowlist st)) \<longrightarrow>
          res = Inr False \<and> allowlist_file st' = allowlist_file st
        \<and> fst (loadAllowlist st') = fst (loadAllowlist st))"
    by (rule addToAllowlist_outcomes)
qed

theorem add_to_list_outcomes_witness:
  "isValidUserId digits_Number ''7''
   \<and> fst (addToBlocklist digits_Number working_disk ''7'' both_lists) = Inr True
   \<and> blocklist_file (snd (addToBlocklist digits_Number working_disk ''7'' both_lists))
       = Present 9 (StrArray [''5'', ''7''])
   \<and> fst (addToAllowlist digits_Number working_disk ''7'' both_lists) = Inr True
   \<and> allowlist_file (snd (addToAllowlist digits_Number working_disk ''7'' both_lists))
       = Present 9 (StrArray [''1'', ''2'', ''5'', ''7''])"
  using add_to_list_outcomes [where Number = digits_Number and userId = "''7''"
      and env = working_disk and st = both_lists]
  by (simp add: case_prod_beta isValidUserId_def digits_Number_def working_disk_def
      both_lists_def loadBlocklist_def loadAllowlist_def)

text \<open>
  C10 as stated fails when the file cannot be written: the id is valid and not in the
  list, yet the call throws instead of returning true.
\<close>

theorem failed_save_counterexample:
  "isValidUserId digits_Number ''7''
   \<and> ''7'' \<notin> set (fst (loadBlocklist both_lists))
   \<and> fst (addToBlocklist digits_Number failing_disk ''7'' both_lists) = Inl FailedToSaveBlocklist
   \<and> fst (addToBlocklist digits_Number failing_disk ''7'' both_lists) \<noteq> Inr True"
  by (simp add: isValidUserId_def digits_Number_def failing_disk_def both_lists_def
      addToBlocklist_def loadBlocklist_def saveBlocklist_def Let_def)

end
